theory Spec2Isabelle
  imports Main
begin

section \<open>Query trees (query.py)\<close>

text \<open>
  Python raises; the model returns the exception as a value of a sum type
  (\<open>Inl\<close> the exception). The exceptions that the modelled code can raise:
  \<^item> \<open>AssertionError\<close>: \<^verbatim>\<open>assert operator in ["AND", "OR", "NOT"]\<close>;
  \<^item> \<open>ValueError\<close>: \<^verbatim>\<open>raise ValueError("Building Query Tree failed")\<close> and
    \<^verbatim>\<open>raise ValueError(f"Syntax not supported ({syntax})")\<close>;
  \<^item> \<open>UnboundLocalError\<close>: \<^verbatim>\<open>return result\<close> in the two field-code functions when
    no branch of the \<^verbatim>\<open>if/elif\<close> chain has assigned \<^verbatim>\<open>result\<close>;
  \<^item> \<open>IndexError\<close>: a list index out of range;
  \<^item> \<open>EOFError\<close>: \<^verbatim>\<open>input()\<close> at the end of the input.
\<close>

datatype error = AssertionError | ValueError | UnboundLocalError | IndexError | EOFError

text \<open>
  A \<^verbatim>\<open>Node\<close> object. The class \<^verbatim>\<open>search_query.node.Node\<close> is not part of the
  sources at hand; its fields are the ones query.py reads and writes
  (\<^verbatim>\<open>value\<close>, \<^verbatim>\<open>operator\<close>, \<^verbatim>\<open>search_field\<close>, \<^verbatim>\<open>children\<close>, \<^verbatim>\<open>marked\<close>).

  Python compares nodes with \<^verbatim>\<open>==\<close> and links the root of a nested query into its
  parent by reference. The model keeps both: every node carries the identity
  \<open>ident\<close> of the object (a number given out once, when the object is created), two
  nodes are the same object iff their \<open>ident\<close> is the same, and the only field that is
  mutated after a node has been linked into another tree, \<^verbatim>\<open>marked\<close>, lives in a
  store indexed by the identity (see \<open>state\<close>). The other fields are written only
  while the node is reachable from the query under construction alone, so they are
  held in the node itself.
\<close>

datatype node =
  Node (ident: nat) (node_value: string) (operator: bool) (search_field: string)
       (children: "node list")

record tree =
  root :: node

record query =
  query_tree :: tree

text \<open>
  The part of the Python heap the code depends on: \<open>next_id\<close> is the identity of the
  next object to be created, \<open>marked\<close> the set of identities of the nodes whose field
  \<^verbatim>\<open>marked\<close> is \<^verbatim>\<open>True\<close>.
\<close>

record state =
  next_id :: nat
  marked :: "nat set"

text \<open>Object identity: \<^verbatim>\<open>a == b\<close> on two nodes (\<^verbatim>\<open>Node\<close> defines no \<^verbatim>\<open>__eq__\<close>).\<close>

definition same :: "node \<Rightarrow> node \<Rightarrow> bool" where
  "same a b = (ident a = ident b)"

text \<open>
  Modelled from the spec: the constructor \<^verbatim>\<open>Node(value, operator, search_field)\<close> of the
  missing class \<^verbatim>\<open>Node\<close> (spec section 3: value, operator flag, search field, an ordered
  list of children, and a transient mark that is false outside validation). It
  creates a new object with no children and \<^verbatim>\<open>marked = False\<close>.
\<close>

definition new_Node :: "state \<Rightarrow> string \<Rightarrow> bool \<Rightarrow> string \<Rightarrow> state \<times> node" where
  "new_Node st v is_op field =
     (st\<lparr>next_id := Suc (next_id st), marked := marked st - {next_id st}\<rparr>,
      Node (next_id st) v is_op field [])"

text \<open>The identities of the nodes of a tree, in depth-first order, with repetition.\<close>

fun idents :: "node \<Rightarrow> nat list" where
  "idents (Node i v b f cs) = i # concat (map idents cs)"

text \<open>
  Modelled from the spec: \<^verbatim>\<open>Tree.remove_all_marks\<close> of the missing class
  \<^verbatim>\<open>search_query.tree.Tree\<close> (spec sections 2 and 4.1: a bulk clear-marks operation;
  every mark on this tree is cleared).
\<close>

definition remove_all_marks :: "state \<Rightarrow> tree \<Rightarrow> state" where
  "remove_all_marks st t = st\<lparr>marked := marked st - set (idents (root t))\<rparr>"

text \<open>
  \<^verbatim>\<open>Query._validate_tree_structure\<close>: raise if the node is marked, else mark it and
  visit the children in order. \<open>validate_children\<close> is the \<^verbatim>\<open>for\<close> loop. The marks
  are written to the heap, so a raise leaves set the marks of the nodes visited before
  it: the exception is returned with the state at the \<^verbatim>\<open>raise\<close>.
\<close>

fun validate_tree_structure :: "state \<Rightarrow> node \<Rightarrow> error \<times> state + state"
  and validate_children :: "state \<Rightarrow> node list \<Rightarrow> error \<times> state + state" where
  "validate_tree_structure st (Node i v b f cs) =
     (if i \<in> marked st then Inl (ValueError, st)
      else validate_children (st\<lparr>marked := insert i (marked st)\<rparr>) cs)"
| "validate_children st [] = Inr st"
| "validate_children st (child # rest) =
     (case validate_tree_structure st child of
        Inl x \<Rightarrow> Inl x
      | Inr st' \<Rightarrow> validate_children st' rest)"

text \<open>\<^verbatim>\<open>node.children.append(child)\<close>.\<close>

fun append_child :: "node \<Rightarrow> node \<Rightarrow> node" where
  "append_child (Node i v b f cs) child = Node i v b f (cs @ [child])"

text \<open>\<^verbatim>\<open>self.query_tree.root.children.append(child)\<close>.\<close>

definition append_to_root :: "query \<Rightarrow> node \<Rightarrow> query" where
  "append_to_root self child =
     self\<lparr>query_tree := (query_tree self)\<lparr>root := append_child (root (query_tree self)) child\<rparr>\<rparr>"

text \<open>
  \<^verbatim>\<open>Query._create_term_nodes\<close>: one new term node per item, appended to the children of
  the root of the query's tree.
\<close>

fun create_term_nodes :: "state \<Rightarrow> query \<Rightarrow> string list \<Rightarrow> string \<Rightarrow> state \<times> query" where
  "create_term_nodes st self [] field = (st, self)"
| "create_term_nodes st self (item # items) field =
     (let (st1, term_node) = new_Node st item False field
      in create_term_nodes st1 (append_to_root self term_node) items field)"

text \<open>
  \<^verbatim>\<open>Query._build_query_tree\<close>: the term nodes first, then the root of every nested
  query, by reference. (The two \<^verbatim>\<open>if\<close> guards skip an empty list, over which the loop
  would do nothing.)
\<close>

definition build_query_tree ::
  "state \<Rightarrow> query \<Rightarrow> string list \<Rightarrow> query list \<Rightarrow> string \<Rightarrow> state \<times> query" where
  "build_query_tree st self search_terms nested_queries field =
     (let (st1, self1) =
            (if search_terms \<noteq> [] then create_term_nodes st self search_terms field
             else (st, self));
          self2 =
            (if nested_queries \<noteq> []
             then fold (\<lambda>q s. append_to_root s (root (query_tree q))) nested_queries self1
             else self1)
      in (st1, self2))"

text \<open>
  \<^verbatim>\<open>Query.__init__\<close>. On success the new state and the new query object are returned.
  An exception aborts the construction: no query is returned, and the exception comes
  with the state at the \<^verbatim>\<open>raise\<close>. The failed \<^verbatim>\<open>assert\<close> has changed nothing; after
  the \<^verbatim>\<open>ValueError\<close> of the validation the two calls of \<^verbatim>\<open>remove_all_marks\<close> are not
  reached, so the marks that the traversal has set stay.
\<close>

definition Query_init ::
  "state \<Rightarrow> string \<Rightarrow> string list \<Rightarrow> query list \<Rightarrow> string
   \<Rightarrow> error \<times> state + state \<times> query" where
  "Query_init st op search_terms nested_queries field =
     (if op \<notin> set [''AND'', ''OR'', ''NOT''] then Inl (AssertionError, st)
      else
        let (st1, r) = new_Node st op True field;
            self0 = \<lparr>query_tree = \<lparr>root = r\<rparr>\<rparr>;
            (st2, self) = build_query_tree st1 self0 search_terms nested_queries field
        in case validate_tree_structure st2 (root (query_tree self)) of
             Inl x \<Rightarrow> Inl x
           | Inr st3 \<Rightarrow>
               let st4 = remove_all_marks st3 (query_tree self);
                   st5 = fold (\<lambda>q s. remove_all_marks s (query_tree q)) nested_queries st4
               in Inr (st5, self))"

subsection \<open>Serializers\<close>

text \<open>
  \<^verbatim>\<open>Query.get_search_field_wos\<close>. The chain of \<^verbatim>\<open>if/elif\<close> has no \<^verbatim>\<open>else\<close>: for any
  other search field the local variable \<^verbatim>\<open>result\<close> is unbound at \<^verbatim>\<open>return result\<close>.
\<close>

definition get_search_field_wos :: "string \<Rightarrow> error + string" where
  "get_search_field_wos field =
     (if field = ''Author Keywords'' then Inr ''AK''
      else if field = ''Abstract'' then Inr ''AB''
      else if field = ''Author'' then Inr ''AU''
      else if field = ''DOI'' then Inr ''DO''
      else if field = ''ISBN/ISSN'' then Inr ''IS''
      else if field = ''Publisher'' then Inr ''PUBL''
      else if field = ''Title'' then Inr ''TI''
      else Inl UnboundLocalError)"

text \<open>\<^verbatim>\<open>Query.get_search_field_pubmed\<close>, of the same shape.\<close>

definition get_search_field_pubmed :: "string \<Rightarrow> error + string" where
  "get_search_field_pubmed field =
     (if field = ''Author Keywords'' then Inr ''ot''
      else if field = ''Abstract'' then Inr ''tiab''
      else if field = ''Author'' then Inr ''au''
      else if field = ''DOI'' then Inr ''aid''
      else if field = ''ISBN/ISSN'' then Inr ''isbn''
      else if field = ''Publisher'' then Inr ''pubn''
      else if field = ''Title'' then Inr ''ti''
      else Inl UnboundLocalError)"

text \<open>
  The tests of the loops: \<^verbatim>\<open>(child == node.children[0]) & (child != node.children[-1])\<close>
  and \<^verbatim>\<open>child == node.children[-1]\<close>. They are evaluated inside a loop over
  \<^verbatim>\<open>node.children\<close>, where the list is not empty.
\<close>

definition first_not_last :: "node \<Rightarrow> node \<Rightarrow> bool" where
  "first_not_last node child =
     (same child (hd (children node)) \<and> \<not> same child (last (children node)))"

definition is_last :: "node \<Rightarrow> node \<Rightarrow> bool" where
  "is_last node child = same child (last (children node))"

text \<open>
  \<^verbatim>\<open>Query._print_query_wos\<close>. \<open>wos_loop node rest result\<close> is the \<^verbatim>\<open>for\<close> loop over the
  children of \<open>node\<close> with the children \<open>rest\<close> still to come and the string \<open>result\<close>
  built so far.
\<close>

function print_query_wos :: "node \<Rightarrow> error + string"
  and wos_loop :: "node \<Rightarrow> node list \<Rightarrow> string \<Rightarrow> error + string" where
  "print_query_wos node = wos_loop node (children node) []"
| "wos_loop node [] result = Inr result"
| "wos_loop node (child # rest) result =
     (if \<not> operator child then
        (case (if first_not_last node child
               then (case get_search_field_wos (search_field child) of
                       Inl e \<Rightarrow> Inl e
                     | Inr code \<Rightarrow> Inr (result @ code @ ''=('' @ node_value child))
               else Inr (result @ '' '' @ node_value node @ '' '' @ node_value child)) of
           Inl e \<Rightarrow> Inl e
         | Inr result1 \<Rightarrow>
             wos_loop node rest (if is_last node child then result1 @ '')'' else result1))
      else
        (case print_query_wos child of
           Inl e \<Rightarrow> Inl e
         | Inr sub \<Rightarrow>
             let result1 =
                   (if node_value child = ''NOT'' then result @ sub
                    else if first_not_last node child then result @ ''('' @ sub
                    else result @ '' '' @ node_value node @ '' '' @ sub)
             in wos_loop node rest
                  (if is_last node child \<and> node_value child \<noteq> ''NOT''
                   then result1 @ '')'' else result1)))"
  by pat_completeness auto
termination
proof (relation "measure (\<lambda>x. case x of Inl n \<Rightarrow> 2 * size n
                                         | Inr (n, cs, r) \<Rightarrow> 2 * size_list size cs + 1)")
  show "wf (measure (\<lambda>x. case x of Inl n \<Rightarrow> 2 * size n
                                  | Inr (n, cs, r) \<Rightarrow> 2 * size_list size cs + 1))"
    by simp
next
  fix node :: node
  show "(Inr (node, children node, []), Inl node)
        \<in> measure (\<lambda>x. case x of Inl n \<Rightarrow> 2 * size n
                                 | Inr (n, cs, r) \<Rightarrow> 2 * size_list size cs + 1)"
    by (cases node) simp
qed simp_all

text \<open>\<^verbatim>\<open>Query._print_query_pubmed\<close>, with its loop \<open>pubmed_loop\<close>.\<close>

function print_query_pubmed :: "node \<Rightarrow> error + string"
  and pubmed_loop :: "node \<Rightarrow> node list \<Rightarrow> string \<Rightarrow> error + string" where
  "print_query_pubmed node = pubmed_loop node (children node) []"
| "pubmed_loop node [] result = Inr result"
| "pubmed_loop node (child # rest) result =
     (if \<not> operator child then
        (case get_search_field_pubmed (search_field child) of
           Inl e \<Rightarrow> Inl e
         | Inr code \<Rightarrow>
             let result1 =
                   (if first_not_last node child
                    then result @ ''('' @ node_value child @ ''['' @ code @ '']''
                    else result @ '' '' @ node_value node @ '' '' @ node_value child
                           @ ''['' @ code @ '']'')
             in pubmed_loop node rest
                  (if is_last node child then result1 @ '')'' else result1))
      else
        (case print_query_pubmed child of
           Inl e \<Rightarrow> Inl e
         | Inr sub \<Rightarrow>
             let result1 =
                   (if node_value child = ''NOT'' then result @ sub
                    else if first_not_last node child then result @ ''('' @ sub
                    else result @ '' '' @ node_value node @ '' '' @ sub)
             in pubmed_loop node rest
                  (if is_last node child \<and> node_value child \<noteq> ''NOT''
                   then result1 @ '')'' else result1)))"
  by pat_completeness auto
termination
proof (relation "measure (\<lambda>x. case x of Inl n \<Rightarrow> 2 * size n
                                         | Inr (n, cs, r) \<Rightarrow> 2 * size_list size cs + 1)")
  show "wf (measure (\<lambda>x. case x of Inl n \<Rightarrow> 2 * size n
                                  | Inr (n, cs, r) \<Rightarrow> 2 * size_list size cs + 1))"
    by simp
next
  fix node :: node
  show "(Inr (node, children node, []), Inl node)
        \<in> measure (\<lambda>x. case x of Inl n \<Rightarrow> 2 * size n
                                 | Inr (n, cs, r) \<Rightarrow> 2 * size_list size cs + 1)"
    by (cases node) simp
qed simp_all

text \<open>
  \<^verbatim>\<open>Query._print_query_pre_notation\<close>: the value of the node, then, if it has children,
  their pre-notations in brackets, separated by a comma after every child that is not
  the last one.
\<close>

function print_query_pre_notation :: "node \<Rightarrow> string"
  and pre_notation_loop :: "node \<Rightarrow> node list \<Rightarrow> string \<Rightarrow> string" where
  "print_query_pre_notation node =
     (if children node = [] then node_value node
      else pre_notation_loop node (children node) (node_value node @ ''['') @ '']'')"
| "pre_notation_loop node [] result = result"
| "pre_notation_loop node (child # rest) result =
     (let result1 = result @ print_query_pre_notation child
      in pre_notation_loop node rest
           (if \<not> same child (last (children node)) then result1 @ '', '' else result1))"
  by pat_completeness auto
termination
proof (relation "measure (\<lambda>x. case x of Inl n \<Rightarrow> 2 * size n
                                         | Inr (n, cs, r) \<Rightarrow> 2 * size_list size cs + 1)")
  show "wf (measure (\<lambda>x. case x of Inl n \<Rightarrow> 2 * size n
                                  | Inr (n, cs, r) \<Rightarrow> 2 * size_list size cs + 1))"
    by simp
next
  fix node :: node
  show "(Inr (node, children node, node_value node @ ''[''), Inl node)
        \<in> measure (\<lambda>x. case x of Inl n \<Rightarrow> 2 * size n
                                 | Inr (n, cs, r) \<Rightarrow> 2 * size_list size cs + 1)"
    by (cases node) simp
qed simp_all

text \<open>
  \<^verbatim>\<open>node.children[index + 1].operator\<close> in the IEEE serializer: Python raises
  \<^verbatim>\<open>IndexError\<close> past the end of the list.
\<close>

definition next_is_operator :: "node \<Rightarrow> nat \<Rightarrow> error + bool" where
  "next_is_operator node index =
     (if index + 1 < length (children node)
      then Inr (operator (children node ! (index + 1)))
      else Inl IndexError)"

text \<open>
  \<^verbatim>\<open>Query._print_query_ieee\<close>; \<open>ieee_loop node index rest result\<close> is the loop
  \<^verbatim>\<open>for index, child in enumerate(node.children)\<close>.
\<close>

function print_query_ieee :: "node \<Rightarrow> error + string"
  and ieee_loop :: "node \<Rightarrow> nat \<Rightarrow> node list \<Rightarrow> string \<Rightarrow> error + string" where
  "print_query_ieee node = ieee_loop node 0 (children node) []"
| "ieee_loop node index [] result = Inr result"
| "ieee_loop node index (child # rest) result =
     (if \<not> operator child then
        (case (if first_not_last node child
               then (let result1 = result @ ''('' @ [CHR 0x22] @ search_field child
                                     @ [CHR 0x22] @ '':'' @ node_value child
                     in case next_is_operator node index of
                          Inl e \<Rightarrow> Inl e
                        | Inr b \<Rightarrow> Inr (if b then ''('' @ result1 @ '')'' else result1))
               else (let result1 = result @ '' '' @ node_value node @ '' '' @ [CHR 0x22]
                                     @ search_field child @ [CHR 0x22] @ '':''
                                     @ node_value child
                     in if \<not> same child (last (children node))
                        then (case next_is_operator node index of
                                Inl e \<Rightarrow> Inl e
                              | Inr b \<Rightarrow> Inr (if b then ''('' @ result1 @ '')'' else result1))
                        else Inr result1)) of
           Inl e \<Rightarrow> Inl e
         | Inr result2 \<Rightarrow>
             ieee_loop node (index + 1) rest
               (if is_last node child then result2 @ '')'' else result2))
      else
        (case print_query_ieee child of
           Inl e \<Rightarrow> Inl e
         | Inr sub \<Rightarrow>
             ieee_loop node (index + 1) rest
               (if first_not_last node child then result @ sub
                else result @ '' '' @ node_value node @ '' '' @ sub)))"
  by pat_completeness auto
termination
proof (relation "measure (\<lambda>x. case x of Inl n \<Rightarrow> 2 * size n
                                         | Inr (n, i, cs, r) \<Rightarrow> 2 * size_list size cs + 1)")
  show "wf (measure (\<lambda>x. case x of Inl n \<Rightarrow> 2 * size n
                                  | Inr (n, i, cs, r) \<Rightarrow> 2 * size_list size cs + 1))"
    by simp
next
  fix node :: node
  show "(Inr (node, 0, children node, []), Inl node)
        \<in> measure (\<lambda>x. case x of Inl n \<Rightarrow> 2 * size n
                                 | Inr (n, i, cs, r) \<Rightarrow> 2 * size_list size cs + 1)"
    by (cases node) simp
qed simp_all

text \<open>\<^verbatim>\<open>Query.to_string\<close>: the serializer of the syntax, on the root of the query's tree.\<close>

definition to_string :: "query \<Rightarrow> string \<Rightarrow> error + string" where
  "to_string self syntax_name =
     (if syntax_name = ''pre_notation''
      then Inr (print_query_pre_notation (root (query_tree self)))
      else if syntax_name = ''wos'' then print_query_wos (root (query_tree self))
      else if syntax_name = ''pubmed'' then print_query_pubmed (root (query_tree self))
      else if syntax_name = ''ieee'' then print_query_ieee (root (query_tree self))
      else Inl ValueError)"

text \<open>
  The programs of the two serialization examples of the spec: the nested query is
  constructed first, then the query that nests it, then the string is asked for.
\<close>

definition wos_example :: "state \<Rightarrow> error + string" where
  "wos_example st =
     (case Query_init st ''OR'' [''lung'', ''breast''] [] ''Title'' of
        Inl (e, st1) \<Rightarrow> Inl e
      | Inr (st1, q) \<Rightarrow>
          (case Query_init st1 ''AND'' [''cancer''] [q] ''Abstract'' of
             Inl (e, st2) \<Rightarrow> Inl e
           | Inr (st2, p) \<Rightarrow> to_string p ''wos''))"

definition pubmed_example :: "state \<Rightarrow> error + string" where
  "pubmed_example st =
     (case Query_init st ''AND'' [''covid''] [] ''Title'' of
        Inl (e, st1) \<Rightarrow> Inl e
      | Inr (st1, q) \<Rightarrow> to_string q ''pubmed'')"

section \<open>Linting of query strings (parser\_validation.py)\<close>

subsection \<open>Strings, characters and regular expressions\<close>

text \<open>
  A Python \<^verbatim>\<open>str\<close> is a sequence of code points. The model's strings hold the code
  points below 256, one per \<open>char\<close>; the predicates below are those of Python's
  \<^verbatim>\<open>re\<close> module for \<^verbatim>\<open>str\<close> patterns on these code points.

  \<open>is_word_char\<close> is \<^verbatim>\<open>\w\<close>: alphanumeric or the underscore.
\<close>

definition is_word_char :: "char \<Rightarrow> bool" where
  "is_word_char c =
     (let n = (of_char c :: nat)
      in (48 \<le> n \<and> n \<le> 57) \<or> (65 \<le> n \<and> n \<le> 90) \<or> n = 95 \<or> (97 \<le> n \<and> n \<le> 122)
         \<or> n = 170 \<or> n = 178 \<or> n = 179 \<or> n = 181 \<or> n = 185 \<or> n = 186
         \<or> (188 \<le> n \<and> n \<le> 190) \<or> (192 \<le> n \<and> n \<le> 214) \<or> (216 \<le> n \<and> n \<le> 246)
         \<or> 248 \<le> n)"

text \<open>\<^verbatim>\<open>\d\<close>: a decimal digit.\<close>

definition is_digit :: "char \<Rightarrow> bool" where
  "is_digit c = (let n = (of_char c :: nat) in 48 \<le> n \<and> n \<le> 57)"

text \<open>\<^verbatim>\<open>[A-Z]\<close>.\<close>

definition is_upper_AZ :: "char \<Rightarrow> bool" where
  "is_upper_AZ c = (let n = (of_char c :: nat) in 65 \<le> n \<and> n \<le> 90)"

text \<open>The characters that \<^verbatim>\<open>str.strip()\<close> removes.\<close>

definition is_space :: "char \<Rightarrow> bool" where
  "is_space c =
     (let n = (of_char c :: nat)
      in (9 \<le> n \<and> n \<le> 13) \<or> (28 \<le> n \<and> n \<le> 32) \<or> n = 133 \<or> n = 160)"

definition strip :: "string \<Rightarrow> string" where
  "strip s = rev (dropWhile is_space (rev (dropWhile is_space s)))"

text \<open>
  \<^verbatim>\<open>str.upper()\<close> on the letters a to z. The code applies it to the text of a match of
  \<^verbatim>\<open>FAULTY_OPERATOR_REGEX\<close> only, which holds none but these letters (lemma
  \<open>match_faulty_operator_letters\<close> below).
\<close>

definition char_upper :: "char \<Rightarrow> char" where
  "char_upper c =
     (let n = (of_char c :: nat) in if 97 \<le> n \<and> n \<le> 122 then char_of (n - 32) else c)"

definition upper :: "string \<Rightarrow> string" where
  "upper s = map char_upper s"

text \<open>The slice \<^verbatim>\<open>s[a:b]\<close> for \<open>0 \<le> a\<close> and \<open>0 \<le> b\<close>.\<close>

definition slice :: "'a list \<Rightarrow> nat \<Rightarrow> nat \<Rightarrow> 'a list" where
  "slice s a b = take (b - a) (drop a s)"

text \<open>The slice assignment \<^verbatim>\<open>l[a:b] = r\<close>, also \<^verbatim>\<open>s[:a] + r + s[b:]\<close>.\<close>

definition replace_slice :: "'a list \<Rightarrow> nat \<Rightarrow> nat \<Rightarrow> 'a list \<Rightarrow> 'a list" where
  "replace_slice s a b r = take a s @ r @ drop b s"

text \<open>
  \<^verbatim>\<open>\b\<close> at position \<open>i\<close> of \<open>s\<close>: exactly one of the characters before and at \<open>i\<close>
  is a word character, where the outside of the string counts as not a word character.
\<close>

definition word_before :: "string \<Rightarrow> nat \<Rightarrow> bool" where
  "word_before s i = (0 < i \<and> i \<le> length s \<and> is_word_char (s ! (i - 1)))"

definition word_at :: "string \<Rightarrow> nat \<Rightarrow> bool" where
  "word_at s i = (i < length s \<and> is_word_char (s ! i))"

definition word_boundary :: "string \<Rightarrow> nat \<Rightarrow> bool" where
  "word_boundary s i = (word_before s i \<noteq> word_at s i)"

text \<open>The character at position \<open>i\<close> exists and is one of \<open>cs\<close>: a set such as \<^verbatim>\<open>[aA]\<close>.\<close>

definition char_in :: "string \<Rightarrow> nat \<Rightarrow> string \<Rightarrow> bool" where
  "char_in s i cs = (i < length s \<and> s ! i \<in> set cs)"

text \<open>
  A match of \<^verbatim>\<open>FAULTY_OPERATOR_REGEX = r"\b(?:[aA][nN][dD]|[oO][rR]|[nN][oO][tT])\b"\<close>
  that starts at position \<open>i\<close>: the position where it ends, if there is one. The
  alternatives are tried in their order, each followed by \<^verbatim>\<open>\b\<close>. The flag
  \<^verbatim>\<open>re.IGNORECASE\<close> adds no character to these sets.
\<close>

definition match_faulty_operator :: "string \<Rightarrow> nat \<Rightarrow> nat option" where
  "match_faulty_operator s i =
     (if \<not> word_boundary s i then None
      else if char_in s i ''aA'' \<and> char_in s (i + 1) ''nN'' \<and> char_in s (i + 2) ''dD''
              \<and> word_boundary s (i + 3) then Some (i + 3)
      else if char_in s i ''oO'' \<and> char_in s (i + 1) ''rR''
              \<and> word_boundary s (i + 2) then Some (i + 2)
      else if char_in s i ''nN'' \<and> char_in s (i + 1) ''oO'' \<and> char_in s (i + 2) ''tT''
              \<and> word_boundary s (i + 3) then Some (i + 3)
      else None)"

text \<open>The lookahead \<^verbatim>\<open>OR\b\<close> of \<^verbatim>\<open>(?!OR\b)\<close>.\<close>

definition lookahead_OR :: "string \<Rightarrow> nat \<Rightarrow> bool" where
  "lookahead_OR s i = (char_in s i ''O'' \<and> char_in s (i + 1) ''R'' \<and> word_boundary s (i + 2))"

text \<open>
  The lookahead \<^verbatim>\<open>S\d+\b\<close> of \<^verbatim>\<open>(?!S\d+\b)\<close>: an S, then \<open>k\<close> digits for some
  \<open>k \<ge> 1\<close> (the longest run first, then shorter ones), then \<^verbatim>\<open>\b\<close>.
\<close>

definition lookahead_S_digits :: "string \<Rightarrow> nat \<Rightarrow> bool" where
  "lookahead_S_digits s i =
     (char_in s i ''S'' \<and>
      list_ex (\<lambda>k. word_boundary s (i + 1 + k))
        (rev [1 ..< Suc (length (takeWhile is_digit (drop (i + 1) s)))]))"

text \<open>
  A match of
  \<^verbatim>\<open>UNSUPPORTED_SEARCH_FIELD_REGEX = r"\b(?!OR\b)\b(?!S\d+\b)[A-Z]{2}\b"\<close>
  that starts at position \<open>i\<close>.
\<close>

definition match_unsupported_search_field :: "string \<Rightarrow> nat \<Rightarrow> nat option" where
  "match_unsupported_search_field s i =
     (if word_boundary s i \<and> \<not> lookahead_OR s i \<and> word_boundary s i
         \<and> \<not> lookahead_S_digits s i
         \<and> i < length s \<and> is_upper_AZ (s ! i)
         \<and> i + 1 < length s \<and> is_upper_AZ (s ! (i + 1))
         \<and> word_boundary s (i + 2)
      then Some (i + 2) else None)"

text \<open>
  \<^verbatim>\<open>re.finditer(regex, s)\<close>, as the list of the spans of its matches: the string is
  scanned from the left, a match is looked for at every position from 0 to
  \<open>length s\<close>, and after a match the scan goes on where the match ended. \<open>m\<close> gives
  the match of the regular expression at a position. (Neither regular expression
  matches the empty string; after an empty match the model moves on by one.)
\<close>

function finditer_from :: "(string \<Rightarrow> nat \<Rightarrow> nat option) \<Rightarrow> string \<Rightarrow> nat \<Rightarrow> (nat \<times> nat) list" where
  "finditer_from m s i =
     (if length s < i then []
      else case m s i of
             None \<Rightarrow> finditer_from m s (i + 1)
           | Some e \<Rightarrow> (i, e) # finditer_from m s (if i < e then e else i + 1))"
  by pat_completeness auto
termination
  by (relation "measure (\<lambda>(m, s, i). Suc (length s) - i)") auto

definition finditer :: "(string \<Rightarrow> nat \<Rightarrow> nat option) \<Rightarrow> string \<Rightarrow> (nat \<times> nat) list" where
  "finditer m s = finditer_from m s 0"

subsection \<open>Linter messages and validators\<close>

text \<open>
  The value under \<^verbatim>\<open>"pos"\<close> of a linter message: a tuple \<^verbatim>\<open>(start, end)\<close>, the empty
  string, or \<^verbatim>\<open>None\<close>.
\<close>

datatype pos_value = Tuple int int | EmptyStr | NoneValue

text \<open>A linter message: the dict with the keys \<^verbatim>\<open>"level"\<close>, \<^verbatim>\<open>"msg"\<close> and \<^verbatim>\<open>"pos"\<close>.\<close>

record linter_message =
  level :: string
  msg :: string
  pos :: pos_value

text \<open>
  An object of \<^verbatim>\<open>QueryStringValidator\<close> or of \<^verbatim>\<open>EBSCOQueryStringValidator\<close>: both
  classes have the same fields. \<^verbatim>\<open>linter_messages\<close> is an attribute of the class: one
  list, read and written through \<^verbatim>\<open>self\<close>.
\<close>

record validator =
  query_str :: string
  search_field_general :: string
  linter_messages :: "linter_message list"

text \<open>
  The body of the loop of \<^verbatim>\<open>QueryStringValidator.check_operator\<close> for one match. The
  match was made on the string \<open>orig\<close> that \<^verbatim>\<open>re.finditer\<close> was called with;
  \<^verbatim>\<open>match.group()\<close> is its text in \<open>orig\<close>.
\<close>

definition check_operator_step :: "string \<Rightarrow> nat \<times> nat \<Rightarrow> validator \<Rightarrow> validator" where
  "check_operator_step orig span self =
     (let start = fst span; end_pos = snd span;
          operator_text = slice orig start end_pos
      in if operator_text \<noteq> upper operator_text
         then self\<lparr>query_str := replace_slice (query_str self) start end_pos (upper operator_text),
                   linter_messages := linter_messages self @
                     [\<lparr>level = ''Warning'',
                       msg = ''Operator '' @ [CHR 0x27] @ operator_text @ [CHR 0x27]
                             @ '' automatically capitalized'',
                       pos = Tuple (int start) (int end_pos)\<rparr>]\<rparr>
         else self)"

text \<open>\<^verbatim>\<open>QueryStringValidator.check_operator\<close>.\<close>

definition check_operator :: "validator \<Rightarrow> validator" where
  "check_operator self =
     fold (check_operator_step (query_str self))
          (finditer match_faulty_operator (query_str self))
          (self\<lparr>linter_messages := []\<rparr>)"

text \<open>The local set \<^verbatim>\<open>supported_fields\<close> of \<^verbatim>\<open>filter_search_field\<close>.\<close>

definition supported_fields :: "string set" where
  "supported_fields =
     {''TI'', ''AU'', ''TX'', ''AB'', ''SO'', ''SU'', ''IS'', ''IB'', ''DE'', ''LA'', ''KW''}"

text \<open>
  The loop \<^verbatim>\<open>while True\<close> of the strict mode: lines are read with \<^verbatim>\<open>input()\<close> until
  one of them, stripped, is a supported field. \<open>inputs\<close> are the lines the standard
  input still holds; at its end \<^verbatim>\<open>input()\<close> raises \<^verbatim>\<open>EOFError\<close>. The result is the
  replacement and the lines left. (What is printed is not modelled.)
\<close>

fun prompt_replacement :: "string list \<Rightarrow> error + string \<times> string list" where
  "prompt_replacement [] = Inl EOFError"
| "prompt_replacement (line # inputs) =
     (let replacement = strip line
      in if replacement \<in> supported_fields then Inr (replacement, inputs)
         else prompt_replacement inputs)"

text \<open>
  The loop of \<^verbatim>\<open>EBSCOQueryStringValidator.filter_search_field\<close> over the matches that
  \<^verbatim>\<open>re.finditer\<close> found in \<open>orig\<close> (\<^verbatim>\<open>self.query_str\<close>, which the loop does not
  assign). \<open>modified\<close> is \<^verbatim>\<open>modified_query_list\<close>, \<open>msgs\<close> the class's
  \<^verbatim>\<open>linter_messages\<close>.
\<close>

fun filter_loop ::
  "string \<Rightarrow> bool \<Rightarrow> (nat \<times> nat) list \<Rightarrow> string \<Rightarrow> linter_message list \<Rightarrow> string list
   \<Rightarrow> error + string \<times> linter_message list \<times> string list" where
  "filter_loop orig strict [] modified msgs inputs = Inr (modified, msgs, inputs)"
| "filter_loop orig strict ((start, end_pos) # spans) modified msgs inputs =
     (let field = strip (slice orig start end_pos)
      in if field \<notin> supported_fields then
           (if strict then
              (case prompt_replacement inputs of
                 Inl e \<Rightarrow> Inl e
               | Inr (replacement, inputs') \<Rightarrow>
                   filter_loop orig strict spans
                     (replace_slice modified start end_pos replacement) msgs inputs')
            else
              filter_loop orig strict spans
                (replace_slice modified start end_pos ''AB'')
                (msgs @
                   [\<lparr>level = ''Error'',
                     msg = ''search-field-unsupported: '' @ [CHR 0x27] @ field @ [CHR 0x27]
                           @ '' automatically changed to Abstract AB.'',
                     pos = Tuple (int start) (int end_pos)\<rparr>])
                inputs)
         else filter_loop orig strict spans modified msgs inputs)"

text \<open>
  \<^verbatim>\<open>EBSCOQueryStringValidator.filter_search_field\<close>. The result is the validator
  object after the call and the lines the standard input still holds.
\<close>

definition filter_search_field ::
  "validator \<Rightarrow> bool \<Rightarrow> string list \<Rightarrow> error + validator \<times> string list" where
  "filter_search_field self strict inputs =
     (case filter_loop (query_str self) strict
             (finditer match_unsupported_search_field (query_str self))
             (query_str self) [] inputs of
        Inl e \<Rightarrow> Inl e
      | Inr (modified, msgs, inputs') \<Rightarrow>
          Inr (self\<lparr>query_str := modified, linter_messages := msgs\<rparr>, inputs'))"

text \<open>The dict \<^verbatim>\<open>valid_transitions\<close> of \<^verbatim>\<open>validate_token_position\<close>.\<close>

definition valid_transitions :: "(string \<times> string list) list" where
  "valid_transitions =
     [(''FIELD'', [''SEARCH_TERM'', ''PARENTHESIS_OPEN'']),
      (''SEARCH_TERM'',
         [''SEARCH_TERM'', ''LOGIC_OPERATOR'', ''PROXIMITY_OPERATOR'', ''PARENTHESIS_CLOSED'']),
      (''LOGIC_OPERATOR'', [''SEARCH_TERM'', ''FIELD'', ''PARENTHESIS_OPEN'']),
      (''PROXIMITY_OPERATOR'', [''SEARCH_TERM'', ''PARENTHESIS_OPEN'', ''FIELD'']),
      (''PARENTHESIS_OPEN'', [''FIELD'', ''SEARCH_TERM'', ''PARENTHESIS_OPEN'']),
      (''PARENTHESIS_CLOSED'',
         [''PARENTHESIS_CLOSED'', ''LOGIC_OPERATOR'', ''PROXIMITY_OPERATOR''])]"

text \<open>\<^verbatim>\<open>valid_transitions.get(previous_token_type, [])\<close>.\<close>

definition transitions_get :: "string \<Rightarrow> string list" where
  "transitions_get previous_token_type =
     (case map_of valid_transitions previous_token_type of None \<Rightarrow> [] | Some ts \<Rightarrow> ts)"

text \<open>\<^verbatim>\<open>EBSCOQueryStringValidator.validate_token_position\<close>.\<close>

definition validate_token_position ::
  "validator \<Rightarrow> string \<Rightarrow> string option \<Rightarrow> pos_value \<Rightarrow> validator" where
  "validate_token_position self token_type previous_token_type position =
     (case previous_token_type of
        None \<Rightarrow> self\<lparr>linter_messages := []\<rparr>
      | Some previous \<Rightarrow>
          if token_type \<notin> set (transitions_get previous)
          then self\<lparr>linter_messages :=
                 [\<lparr>level = ''Error'',
                   msg = ''Invalid token sequence: '' @ [CHR 0x27] @ previous @ [CHR 0x27]
                         @ '' followed by '' @ [CHR 0x27] @ token_type @ [CHR 0x27],
                   pos = position\<rparr>]\<rparr>
          else self\<lparr>linter_messages := []\<rparr>)"

subsection \<open>The token categories and the transition table of the specification\<close>

text \<open>The six token categories, and the string that names each in the code.\<close>

datatype category =
  FIELD | SEARCH_TERM | LOGIC_OPERATOR | PROXIMITY_OPERATOR | PARENTHESIS_OPEN
  | PARENTHESIS_CLOSED

fun category_name :: "category \<Rightarrow> string" where
  "category_name FIELD = ''FIELD''"
| "category_name SEARCH_TERM = ''SEARCH_TERM''"
| "category_name LOGIC_OPERATOR = ''LOGIC_OPERATOR''"
| "category_name PROXIMITY_OPERATOR = ''PROXIMITY_OPERATOR''"
| "category_name PARENTHESIS_OPEN = ''PARENTHESIS_OPEN''"
| "category_name PARENTHESIS_CLOSED = ''PARENTHESIS_CLOSED''"

text \<open>
  The transition table as the specification gives it (section 6): the categories
  allowed after a category.
\<close>

fun allowed_successors :: "category \<Rightarrow> category set" where
  "allowed_successors FIELD = {SEARCH_TERM, PARENTHESIS_OPEN}"
| "allowed_successors SEARCH_TERM =
     {SEARCH_TERM, LOGIC_OPERATOR, PROXIMITY_OPERATOR, PARENTHESIS_CLOSED}"
| "allowed_successors LOGIC_OPERATOR = {SEARCH_TERM, FIELD, PARENTHESIS_OPEN}"
| "allowed_successors PROXIMITY_OPERATOR = {SEARCH_TERM, PARENTHESIS_OPEN, FIELD}"
| "allowed_successors PARENTHESIS_OPEN = {FIELD, SEARCH_TERM, PARENTHESIS_OPEN}"
| "allowed_successors PARENTHESIS_CLOSED =
     {PARENTHESIS_CLOSED, LOGIC_OPERATOR, PROXIMITY_OPERATOR}"

text \<open>The message that \<^verbatim>\<open>validate_token_position\<close> emits for a pair of categories.\<close>

definition sequence_error :: "category \<Rightarrow> category \<Rightarrow> pos_value \<Rightarrow> linter_message" where
  "sequence_error previous current position =
     \<lparr>level = ''Error'',
      msg = ''Invalid token sequence: '' @ [CHR 0x27] @ category_name previous @ [CHR 0x27]
            @ '' followed by '' @ [CHR 0x27] @ category_name current @ [CHR 0x27],
      pos = position\<rparr>"

subsection \<open>Notions used to state the properties of the construction\<close>

text \<open>
  The term nodes that \<open>create_term_nodes\<close> makes for a list of search terms when the
  next free identity is \<open>k\<close>: one node per term, in the order of the list, not an
  operator, with the search field of the query and no children.
\<close>

fun term_nodes :: "nat \<Rightarrow> string list \<Rightarrow> string \<Rightarrow> node list" where
  "term_nodes k [] field = []"
| "term_nodes k (item # items) field =
     Node k item False field [] # term_nodes (Suc k) items field"

text \<open>
  The identities of the nodes of the tree of a query, and of the trees of a list of
  queries. Two trees share a node iff an identity is in both lists; a node is linked
  twice into a tree iff its identity is twice in the list.
\<close>

definition query_nodes :: "query \<Rightarrow> nat list" where
  "query_nodes q = idents (root (query_tree q))"

definition nodes_of :: "query list \<Rightarrow> nat list" where
  "nodes_of qs = concat (map query_nodes qs)"



text \<open>
  A program that nests a query \<open>qa\<close> together with a query \<open>qb\<close> that already nests
  \<open>qa\<close>, and, when that construction has raised, uses \<open>qa\<close> as the only nested query of
  another construction: it returns what the two constructions return.
\<close>

definition shared_subtree_example ::
  "state \<Rightarrow> (error \<times> state + state \<times> query) \<times> (error \<times> state + state \<times> query)" where
  "shared_subtree_example st =
     (case Query_init st ''OR'' [''lung''] [] ''Title'' of
        Inl x \<Rightarrow> (Inl x, Inl x)
      | Inr (st1, qa) \<Rightarrow>
          (case Query_init st1 ''AND'' [''cancer''] [qa] ''Abstract'' of
             Inl x \<Rightarrow> (Inl x, Inl x)
           | Inr (st2, qb) \<Rightarrow>
               (case Query_init st2 ''NOT'' [] [qa, qb] ''Title'' of
                  Inl (e, st3) \<Rightarrow> (Inl (e, st3), Query_init st3 ''AND'' [] [qa] ''Title'')
                | Inr (st3, p) \<Rightarrow> (Inr (st3, p), Inr (st3, p)))))"

subsection \<open>Notions used to state the properties of the serializers\<close>

text \<open>
  The search fields that the two field-code tables map: the keys named by the
  specification (section 6).
\<close>

definition field_names :: "string list" where
  "field_names =
     [''Author Keywords'', ''Abstract'', ''Author'', ''DOI'', ''ISBN/ISSN'', ''Publisher'',
      ''Title'']"

text \<open>
  The term nodes of a tree as the serializers walk it: the children that are not
  operators, of the node and of every operator node below it. In a tree that
  \<open>Query_init\<close> has built these are all the term nodes.
\<close>

fun term_nodes_of :: "node \<Rightarrow> node list"
  and term_nodes_of_list :: "node list \<Rightarrow> node list" where
  "term_nodes_of (Node i v b f cs) = term_nodes_of_list cs"
| "term_nodes_of_list [] = []"
| "term_nodes_of_list (child # rest) =
     (if operator child then term_nodes_of child else [child]) @ term_nodes_of_list rest"

text \<open>
  The term nodes for which the WoS serializer emits a field code: those that are the
  first but not the last child of their parent.
\<close>

function first_term_nodes_of :: "node \<Rightarrow> node list"
  and first_term_nodes_of_list :: "node \<Rightarrow> node list \<Rightarrow> node list" where
  "first_term_nodes_of node = first_term_nodes_of_list node (children node)"
| "first_term_nodes_of_list node [] = []"
| "first_term_nodes_of_list node (child # rest) =
     (if operator child then first_term_nodes_of child
      else if first_not_last node child then [child] else [])
     @ first_term_nodes_of_list node rest"
  by pat_completeness auto
termination
proof (relation "measure (\<lambda>x. case x of Inl n \<Rightarrow> 2 * size n
                                         | Inr (n, cs) \<Rightarrow> 2 * size_list size cs + 1)")
  show "wf (measure (\<lambda>x. case x of Inl n \<Rightarrow> 2 * size n
                                  | Inr (n, cs) \<Rightarrow> 2 * size_list size cs + 1))"
    by simp
next
  fix node :: node
  show "(Inr (node, children node), Inl node)
        \<in> measure (\<lambda>x. case x of Inl n \<Rightarrow> 2 * size n
                                 | Inr (n, cs) \<Rightarrow> 2 * size_list size cs + 1)"
    by (cases node) simp
qed simp_all

text \<open>
  A program that serializes, for a syntax, the query AND with the search terms "a" and
  "b", the search field "Title" and the nested query NOT with the single search term
  "robot" and the search field \<open>field\<close>.
\<close>

definition not_operand_example :: "state \<Rightarrow> string \<Rightarrow> string \<Rightarrow> error + string" where
  "not_operand_example st field syntax_name =
     (case Query_init st ''NOT'' [''robot''] [] field of
        Inl (e, st1) \<Rightarrow> Inl e
      | Inr (st1, q) \<Rightarrow>
          (case Query_init st1 ''AND'' [''a'', ''b''] [q] ''Title'' of
             Inl (e, st2) \<Rightarrow> Inl e
           | Inr (st2, p) \<Rightarrow> to_string p syntax_name))"

text \<open>Some node of a list has a search field that the tables do not map.\<close>

definition unmapped :: "node list \<Rightarrow> bool" where
  "unmapped cs = (\<exists>c \<in> set cs. search_field c \<notin> set field_names)"

text \<open>
  What a serializer returns: the error of the field-code function if \<open>bad\<close> holds,
  else a string.
\<close>

definition outcome :: "error + string \<Rightarrow> bool \<Rightarrow> bool" where
  "outcome r bad = (if bad then r = Inl UnboundLocalError else (\<exists>s. r = Inr s))"

subsection \<open>Notions used to state the properties of the operator check\<close>

text \<open>Position \<open>j\<close> lies inside one of the spans.\<close>

definition covered :: "(nat \<times> nat) list \<Rightarrow> nat \<Rightarrow> bool" where
  "covered spans j = (\<exists>(a, b) \<in> set spans. a \<le> j \<and> j < b)"

text \<open>The string \<open>s\<close> with the characters inside the spans in upper case.\<close>

definition capitalized :: "string \<Rightarrow> (nat \<times> nat) list \<Rightarrow> string" where
  "capitalized s spans =
     map (\<lambda>j. if covered spans j then char_upper (s ! j) else s ! j) [0 ..< length s]"

text \<open>
  The text of \<open>s\<close> in the span is not its own upper-case form: the test
  \<^verbatim>\<open>operator != operator.upper()\<close> of \<^verbatim>\<open>check_operator\<close>.
\<close>

definition lower_case_operator :: "string \<Rightarrow> nat \<times> nat \<Rightarrow> bool" where
  "lower_case_operator s span =
     (slice s (fst span) (snd span) \<noteq> upper (slice s (fst span) (snd span)))"

text \<open>The message that \<^verbatim>\<open>check_operator\<close> emits for a match with that span in \<open>s\<close>.\<close>

definition capitalized_warning :: "string \<Rightarrow> nat \<times> nat \<Rightarrow> linter_message" where
  "capitalized_warning s span =
     \<lparr>level = ''Warning'',
      msg = ''Operator '' @ [CHR 0x27] @ slice s (fst span) (snd span) @ [CHR 0x27]
            @ '' automatically capitalized'',
      pos = Tuple (int (fst span)) (int (snd span))\<rparr>"

subsection \<open>Notions used to state the properties of the search field filter\<close>

text \<open>
  A word-bounded two-letter upper-case token starts at position \<open>i\<close> of \<open>s\<close>: two
  letters A to Z with a word boundary before and after them.
\<close>

definition field_token :: "string \<Rightarrow> nat \<Rightarrow> bool" where
  "field_token s i =
     (word_boundary s i \<and> i + 1 < length s \<and> is_upper_AZ (s ! i) \<and> is_upper_AZ (s ! (i + 1))
      \<and> word_boundary s (i + 2))"

text \<open>A text of the form S<digits>: an S and then one digit or more.\<close>

definition S_digits :: "string \<Rightarrow> bool" where
  "S_digits t =
     (case t of [] \<Rightarrow> False | c # ds \<Rightarrow> c = CHR ''S'' \<and> ds \<noteq> [] \<and> list_all is_digit ds)"

text \<open>
  The tokens that the filter has to replace, in the words of the specification: a
  word-bounded two-letter upper-case token that is not the literal OR, not of the form
  S<digits>, and not in the supported set.
\<close>

definition unsupported_token :: "string \<Rightarrow> nat \<Rightarrow> bool" where
  "unsupported_token s i =
     (field_token s i \<and> slice s i (i + 2) \<noteq> ''OR'' \<and> \<not> S_digits (slice s i (i + 2))
      \<and> slice s i (i + 2) \<notin> supported_fields)"

text \<open>
  The string \<open>s\<close> with every such token replaced by AB at its span, and every other
  character as it is.
\<close>

definition replaced :: "string \<Rightarrow> string" where
  "replaced s =
     map (\<lambda>j. if unsupported_token s j then CHR ''A''
              else if 0 < j \<and> unsupported_token s (j - 1) then CHR ''B''
              else s ! j) [0 ..< length s]"

text \<open>
  The message that \<^verbatim>\<open>filter_search_field\<close> emits in non-strict mode for the token at
  position \<open>i\<close> of \<open>s\<close>.
\<close>

definition unsupported_error :: "string \<Rightarrow> nat \<Rightarrow> linter_message" where
  "unsupported_error s i =
     \<lparr>level = ''Error'',
      msg = ''search-field-unsupported: '' @ [CHR 0x27] @ slice s i (i + 2) @ [CHR 0x27]
            @ '' automatically changed to Abstract AB.'',
      pos = Tuple (int i) (int (i + 2))\<rparr>"

text \<open>
  Two notions of the proofs. The positions at which the pattern
  \<^verbatim>\<open>UNSUPPORTED_SEARCH_FIELD_REGEX\<close> matches: the tokens that are not the literal OR.
  And the string \<open>s\<close> with AB written at the positions \<open>ks\<close>.
\<close>

definition candidate :: "string \<Rightarrow> nat \<Rightarrow> bool" where
  "candidate s i = (field_token s i \<and> slice s i (i + 2) \<noteq> ''OR'')"

definition overwrite :: "string \<Rightarrow> nat list \<Rightarrow> string" where
  "overwrite s ks =
     map (\<lambda>j. if j \<in> set ks then CHR ''A''
              else if 0 < j \<and> j - 1 \<in> set ks then CHR ''B''
              else s ! j) [0 ..< length s]"

section \<open>Properties\<close>

subsection \<open>The serialization examples\<close>

lemmas construction_defs =
  Query_init_def build_query_tree_def new_Node_def append_to_root_def remove_all_marks_def
  Let_def

lemmas serializer_defs =
  to_string_def first_not_last_def is_last_def same_def get_search_field_wos_def
  get_search_field_pubmed_def

text \<open>
  Claim C2, as stated: the query AND with the search term "cancer", the search field
  "Abstract" and the nested query OR with the search terms "lung" and "breast" and the
  search field "Title" is serialized for the syntax "wos" to
  \<^verbatim>\<open>AB=(cancer) AND (TI=(lung) OR TI=(breast))\<close>. The code does not return this string.
\<close>

theorem wos_example_counterexample:
  "wos_example \<lparr>next_id = 0, marked = {}\<rparr>
     \<noteq> Inr ''AB=(cancer) AND (TI=(lung) OR TI=(breast))''"
  by (simp add: wos_example_def construction_defs serializer_defs)

text \<open>
  Claim C2, amended: in every state, the two constructions succeed and the
  serialization of that query for the syntax "wos" returns exactly
  \<^verbatim>\<open>AB=(cancer AND TI=(lung OR breast))\<close>: the field code once, before the first
  child, one pair of parentheses around all the children of a node, and the nested
  query rendered in place after the operator of its parent.
\<close>

theorem wos_example_value:
  "wos_example st = Inr ''AB=(cancer AND TI=(lung OR breast))''"
  by (simp add: wos_example_def construction_defs serializer_defs)

text \<open>
  Claim C3 says that the query AND with the single search term "covid", the search
  field "Title" and no nested query is serialized for the syntax "pubmed" to
  \<^verbatim>\<open>covid[ti]\<close>. The code returns something else: the only child is the first and
  the last child at once, so the test "first but not last" fails, and the branch
  that the code comments as "current element is not first child" puts the operator
  in front of the term; the closing parenthesis of the last child follows, with no
  opening one.
\<close>

theorem pubmed_example_value:
  "pubmed_example st = Inr '' AND covid[ti])''"
  by (simp add: pubmed_example_def construction_defs serializer_defs)

subsection \<open>The token sequence validator\<close>

text \<open>
  Claim C4: for every pair of token categories, \<open>validate_token_position\<close> leaves
  exactly one message, of level Error, iff the current category is not in the set of
  allowed successors of the previous category in the transition table of the
  specification, and no message otherwise; and it leaves no message when there is no
  previous category, whatever the current token type is.
\<close>

theorem validate_token_position_table:
  "linter_messages (validate_token_position self (category_name current)
       (Some (category_name previous)) position)
     = (if current \<in> allowed_successors previous then []
        else [sequence_error previous current position])
   \<and> level (sequence_error previous current position) = ''Error''
   \<and> linter_messages (validate_token_position self token_type None position) = []"
proof -
  have table:
    "linter_messages (validate_token_position self (category_name current)
         (Some (category_name previous)) position)
       = (if current \<in> allowed_successors previous then []
          else [sequence_error previous current position])"
    by (cases previous; cases current)
       (simp_all add: validate_token_position_def transitions_get_def valid_transitions_def
          sequence_error_def)
  have first: "linter_messages (validate_token_position self token_type None position) = []"
    by (simp add: validate_token_position_def)
  show ?thesis
    using table first by (simp add: sequence_error_def)
qed

subsection \<open>The operator check\<close>

text \<open>
  Claim C7: \<open>check_operator\<close> on the query string "cancer and lung" rewrites the stored
  query string to "cancer AND lung" and leaves exactly one message, a Warning whose
  position is the span (7, 10) of the lower-case "and"; the other field of the
  validator is unchanged, and the messages of earlier checks are gone.
\<close>

theorem check_operator_example:
  "check_operator
     \<lparr>query_str = ''cancer and lung'', search_field_general = g, linter_messages = ms\<rparr>
   = \<lparr>query_str = ''cancer AND lung'', search_field_general = g,
      linter_messages =
        [\<lparr>level = ''Warning'',
          msg = ''Operator '' @ [CHR 0x27] @ ''and'' @ [CHR 0x27]
                @ '' automatically capitalized'',
          pos = Tuple 7 10\<rparr>]\<rparr>"
  by code_simp

subsection \<open>Construction and structural validation\<close>

lemma length_term_nodes: "length (term_nodes k items field) = length items"
  by (induction items arbitrary: k) auto

lemma idents_term_nodes: "concat (map idents (term_nodes k items field)) = [k ..< k + length items]"
  by (induction items arbitrary: k) (auto simp: upt_rec)

lemma create_term_nodes_eq:
  "create_term_nodes st \<lparr>query_tree = \<lparr>root = Node i v b f cs\<rparr>\<rparr> items field =
     (st\<lparr>next_id := next_id st + length items,
         marked := marked st - {next_id st ..< next_id st + length items}\<rparr>,
      \<lparr>query_tree = \<lparr>root = Node i v b f (cs @ term_nodes (next_id st) items field)\<rparr>\<rparr>)"
proof (induction items arbitrary: st cs)
  case Nil
  then show ?case by simp
next
  case (Cons item items)
  have "marked st - {next_id st} - {Suc (next_id st) ..< Suc (next_id st + length items)}
        = marked st - {next_id st ..< Suc (next_id st + length items)}"
    by auto
  then show ?case
    by (simp add: new_Node_def append_to_root_def Cons.IH)
qed

lemma fold_append_to_root:
  "fold (\<lambda>q s. append_to_root s (root (query_tree q))) qs \<lparr>query_tree = \<lparr>root = Node i v b f cs\<rparr>\<rparr>
   = \<lparr>query_tree = \<lparr>root = Node i v b f (cs @ map (\<lambda>q. root (query_tree q)) qs)\<rparr>\<rparr>"
  by (induction qs arbitrary: cs) (simp_all add: append_to_root_def)

lemma build_query_tree_eq:
  "build_query_tree st \<lparr>query_tree = \<lparr>root = Node i v b f cs\<rparr>\<rparr> search_terms nested_queries field =
     (st\<lparr>next_id := next_id st + length search_terms,
         marked := marked st - {next_id st ..< next_id st + length search_terms}\<rparr>,
      \<lparr>query_tree = \<lparr>root = Node i v b f
          (cs @ term_nodes (next_id st) search_terms field
              @ map (\<lambda>q. root (query_tree q)) nested_queries)\<rparr>\<rparr>)"
  by (simp add: build_query_tree_def create_term_nodes_eq fold_append_to_root)

lemma map_sum_fst_Inr: "(map_sum fst id r = Inr y) = (r = Inr y)"
  by (cases r) auto

lemma map_sum_fst_Inl: "(map_sum fst id r = Inl e) = (\<exists>st. r = Inl (e, st))"
  by (cases r) auto

lemma validate_eq:
  "map_sum fst id (validate_tree_structure st n) =
     (if distinct (idents n) \<and> set (idents n) \<inter> marked st = {}
      then Inr (st\<lparr>marked := marked st \<union> set (idents n)\<rparr>) else Inl ValueError)"
  "map_sum fst id (validate_children st cs) =
     (if distinct (concat (map idents cs)) \<and> set (concat (map idents cs)) \<inter> marked st = {}
      then Inr (st\<lparr>marked := marked st \<union> set (concat (map idents cs))\<rparr>) else Inl ValueError)"
proof (induction st n and st cs rule: validate_tree_structure_validate_children.induct)
  case (1 st i v b f cs)
  then show ?case by (auto simp: insert_commute)
next
  case (2 st)
  then show ?case by simp
next
  case (3 st child rest)
  show ?case
  proof (cases "validate_tree_structure st child")
    case (Inl x)
    then have "map_sum fst id (validate_tree_structure st child) = Inl (fst x)"
      by simp
    then have "\<not> (distinct (idents child) \<and> set (idents child) \<inter> marked st = {})"
      and "fst x = ValueError"
      unfolding "3.IH"(1) by (auto split: if_splits)
    then show ?thesis
      using Inl by auto
  next
    case (Inr st')
    then have "map_sum fst id (validate_tree_structure st child) = Inr st'"
      by simp
    then have ok: "distinct (idents child) \<and> set (idents child) \<inter> marked st = {}"
      and st': "st' = st\<lparr>marked := marked st \<union> set (idents child)\<rparr>"
      unfolding "3.IH"(1) by (auto split: if_splits)
    show ?thesis
      using "3.IH"(2)[OF Inr] Inr ok unfolding st'
      by (auto simp: Un_assoc Un_commute Un_left_commute)
  qed
qed

lemma fold_remove_all_marks:
  "fold (\<lambda>q s. remove_all_marks s (query_tree q)) qs st
   = st\<lparr>marked := marked st - set (nodes_of qs)\<rparr>"
  by (induction qs arbitrary: st)
     (auto simp: remove_all_marks_def nodes_of_def query_nodes_def Diff_eq Int_assoc)

lemma concat_idents_roots:
  "concat (map (idents \<circ> (\<lambda>q. root (query_tree q))) qs) = nodes_of qs"
  by (induction qs) (simp_all add: nodes_of_def query_nodes_def)

lemma Query_init_eq:
  "map_sum fst id (Query_init st op search_terms nested_queries field) =
     (if op \<notin> set [''AND'', ''OR'', ''NOT''] then Inl AssertionError
      else if distinct (nodes_of nested_queries)
              \<and> (\<forall>i \<in> set (nodes_of nested_queries).
                    i \<notin> marked st \<and> i \<notin> {next_id st ..< Suc (next_id st) + length search_terms})
      then Inr (st\<lparr>next_id := Suc (next_id st) + length search_terms,
                   marked := marked st - {next_id st ..< Suc (next_id st) + length search_terms}\<rparr>,
                \<lparr>query_tree = \<lparr>root = Node (next_id st) op True field
                   (term_nodes (Suc (next_id st)) search_terms field
                    @ map (\<lambda>q. root (query_tree q)) nested_queries)\<rparr>\<rparr>)
      else Inl ValueError)"
proof (cases "op \<in> set [''AND'', ''OR'', ''NOT'']")
  case False
  then show ?thesis by (simp add: Query_init_def)
next
  case True
  let ?n = "next_id st"
  let ?F = "{?n ..< Suc ?n + length search_terms}"
  let ?r = "Node ?n op True field (term_nodes (Suc ?n) search_terms field
                    @ map (\<lambda>q. root (query_tree q)) nested_queries)"
  let ?st2 = "st\<lparr>next_id := Suc ?n + length search_terms, marked := marked st - ?F\<rparr>"
  have ids: "idents ?r = [?n ..< Suc ?n + length search_terms] @ nodes_of nested_queries"
  proof -
    have "[?n ..< Suc ?n + length search_terms] = ?n # [Suc ?n ..< Suc ?n + length search_terms]"
      by (rule upt_conv_Cons) simp
    then show ?thesis
      by (simp add: idents_term_nodes concat_idents_roots)
  qed
  have st2: "build_query_tree (fst (new_Node st op True field))
               \<lparr>query_tree = \<lparr>root = snd (new_Node st op True field)\<rparr>\<rparr>
               search_terms nested_queries field
             = (?st2, \<lparr>query_tree = \<lparr>root = ?r\<rparr>\<rparr>)"
  proof -
    have "marked st - {?n} - {Suc ?n ..< Suc (?n + length search_terms)} = marked st - ?F"
      by auto
    then show ?thesis
      by (simp add: new_Node_def build_query_tree_eq)
  qed
  have set_ids: "set (idents ?r) = ?F \<union> set (nodes_of nested_queries)"
    unfolding ids by (simp del: upt_Suc)
  have dist_ids: "distinct (idents ?r)
                  = (distinct (nodes_of nested_queries) \<and> ?F \<inter> set (nodes_of nested_queries) = {})"
    unfolding ids by (simp del: upt_Suc)
  have marked2: "marked ?st2 = marked st - ?F"
    by simp
  have cond: "(distinct (idents ?r) \<and> set (idents ?r) \<inter> marked ?st2 = {})
              = (distinct (nodes_of nested_queries)
                 \<and> (\<forall>i \<in> set (nodes_of nested_queries). i \<notin> marked st \<and> i \<notin> ?F))"
    unfolding set_ids dist_ids marked2 by blast
  have fin: "set (idents ?r) \<inter> marked ?st2 = {} \<Longrightarrow>
             marked ?st2 \<union> set (idents ?r) - set (idents ?r) - set (nodes_of nested_queries)
             = marked st - ?F"
    unfolding set_ids marked2 by blast
  have init: "Query_init st op search_terms nested_queries field
              = (case validate_tree_structure ?st2 ?r of
                   Inl x \<Rightarrow> Inl x
                 | Inr st3 \<Rightarrow>
                     Inr (fold (\<lambda>q s. remove_all_marks s (query_tree q)) nested_queries
                            (remove_all_marks st3 \<lparr>root = ?r\<rparr>),
                          \<lparr>query_tree = \<lparr>root = ?r\<rparr>\<rparr>))"
    using True
    by (simp add: Query_init_def Let_def split_beta st2
          del: validate_tree_structure.simps idents.simps split: sum.split)
  show ?thesis
  proof (cases "distinct (idents ?r) \<and> set (idents ?r) \<inter> marked ?st2 = {}")
    case ok: True
    have "map_sum fst id (validate_tree_structure ?st2 ?r)
             = Inr (?st2\<lparr>marked := marked ?st2 \<union> set (idents ?r)\<rparr>)"
      unfolding validate_eq(1)[of ?st2 ?r] by (rule if_P) (rule ok)
    then have v: "validate_tree_structure ?st2 ?r
             = Inr (?st2\<lparr>marked := marked ?st2 \<union> set (idents ?r)\<rparr>)"
      unfolding map_sum_fst_Inr .
    have "marked ?st2 \<union> set (idents ?r) - set (idents ?r) - set (nodes_of nested_queries)
          = marked st - ?F"
      using ok fin by blast
    then have clean:
      "fold (\<lambda>q s. remove_all_marks s (query_tree q)) nested_queries
         (remove_all_marks (?st2\<lparr>marked := marked ?st2 \<union> set (idents ?r)\<rparr>) \<lparr>root = ?r\<rparr>)
       = ?st2"
      unfolding fold_remove_all_marks
      by (simp add: remove_all_marks_def del: idents.simps)
    have "Query_init st op search_terms nested_queries field
          = Inr (?st2, \<lparr>query_tree = \<lparr>root = ?r\<rparr>\<rparr>)"
      unfolding init v using clean by simp
    moreover have "distinct (nodes_of nested_queries)
                 \<and> (\<forall>i \<in> set (nodes_of nested_queries). i \<notin> marked st \<and> i \<notin> ?F)"
      using ok cond by blast
    ultimately show ?thesis using True by simp
  next
    case bad: False
    have "map_sum fst id (validate_tree_structure ?st2 ?r) = Inl ValueError"
      unfolding validate_eq(1)[of ?st2 ?r] by (rule if_not_P) (rule bad)
    then obtain st3 where v: "validate_tree_structure ?st2 ?r = Inl (ValueError, st3)"
      unfolding map_sum_fst_Inl ..
    have "Query_init st op search_terms nested_queries field = Inl (ValueError, st3)"
      unfolding init v by simp
    moreover have "\<not> (distinct (nodes_of nested_queries)
                 \<and> (\<forall>i \<in> set (nodes_of nested_queries). i \<notin> marked st \<and> i \<notin> ?F))"
      using bad cond by blast
    ultimately show ?thesis using True by simp
  qed
qed

lemma Query_init_Inr:
  assumes "Query_init st op search_terms nested_queries field = Inr (st', q)"
  shows "q = \<lparr>query_tree = \<lparr>root = Node (next_id st) op True field
                   (term_nodes (Suc (next_id st)) search_terms field
                    @ map (\<lambda>n. root (query_tree n)) nested_queries)\<rparr>\<rparr>"
    and "st' = st\<lparr>next_id := Suc (next_id st) + length search_terms,
                   marked := marked st - {next_id st ..< Suc (next_id st) + length search_terms}\<rparr>"
proof -
  have "map_sum fst id (Query_init st op search_terms nested_queries field) = Inr (st', q)"
    using assms by simp
  then show "q = \<lparr>query_tree = \<lparr>root = Node (next_id st) op True field
                   (term_nodes (Suc (next_id st)) search_terms field
                    @ map (\<lambda>n. root (query_tree n)) nested_queries)\<rparr>\<rparr>"
    and "st' = st\<lparr>next_id := Suc (next_id st) + length search_terms,
                   marked := marked st - {next_id st ..< Suc (next_id st) + length search_terms}\<rparr>"
    unfolding Query_init_eq by (simp_all split: if_splits)
qed




lemma nodes_of_Cons: "nodes_of (q # qs) = query_nodes q @ nodes_of qs"
  by (simp add: nodes_of_def)




text \<open>
  The heap after a construction that has raised: \<open>shared_subtree_example\<close> on the
  empty heap. The construction that nests \<open>qa\<close> and \<open>qb\<close> raises when the traversal
  reaches the root of \<open>qa\<close> below \<open>qb\<close>; the five nodes visited before are left marked,
  and the next construction that nests \<open>qa\<close> raises for that reason alone.
\<close>

lemma shared_subtree_example_value:
  "shared_subtree_example \<lparr>next_id = 0, marked = {}\<rparr>
   = (Inl (ValueError, \<lparr>next_id = 5, marked = {0, 1, 2, 3, 4}\<rparr>),
      Inl (ValueError, \<lparr>next_id = 6, marked = {0, 1, 2, 3, 4, 5}\<rparr>))"
  by (auto simp: shared_subtree_example_def construction_defs eval_nat_numeral)

text \<open>
  Claim C6: for every construction \<open>Query(operator, search_terms, nested_queries,
  search_field)\<close> that succeeds, the root of the resulting tree has exactly
  \<open>len(search_terms) + len(nested_queries)\<close> children: one term node per entry of
  \<open>search_terms\<close>, in the order of the list, followed by the root node of each entry
  of \<open>nested_queries\<close>, in the order of the list.
\<close>

theorem Query_init_children:
  assumes "Query_init st op search_terms nested_queries field = Inr (st', q)"
  shows "children (root (query_tree q))
           = term_nodes (Suc (next_id st)) search_terms field
             @ map (\<lambda>n. root (query_tree n)) nested_queries
         \<and> length (children (root (query_tree q)))
           = length search_terms + length nested_queries"
  using Query_init_Inr(1)[OF assms] by (simp add: length_term_nodes)

theorem Query_init_children_witness:
  "Query_init \<lparr>next_id = 3, marked = {}\<rparr> ''AND'' [''cancer'']
     [\<lparr>query_tree = \<lparr>root = Node 0 ''OR'' True ''Title''
         [Node 1 ''lung'' False ''Title'' [], Node 2 ''breast'' False ''Title'' []]\<rparr>\<rparr>]
     ''Abstract''
   = Inr (\<lparr>next_id = 5, marked = {}\<rparr>,
          \<lparr>query_tree = \<lparr>root = Node 3 ''AND'' True ''Abstract''
             [Node 4 ''cancer'' False ''Abstract'' [],
              Node 0 ''OR'' True ''Title''
                [Node 1 ''lung'' False ''Title'' [], Node 2 ''breast'' False ''Title'' []]]\<rparr>\<rparr>)
   \<and> children (root (query_tree
        \<lparr>query_tree = \<lparr>root = Node 3 ''AND'' True ''Abstract''
           [Node 4 ''cancer'' False ''Abstract'' [],
            Node 0 ''OR'' True ''Title''
              [Node 1 ''lung'' False ''Title'' [], Node 2 ''breast'' False ''Title'' []]]\<rparr>\<rparr>))
     = term_nodes 4 [''cancer''] ''Abstract''
       @ map (\<lambda>n. root (query_tree n))
           [\<lparr>query_tree = \<lparr>root = Node 0 ''OR'' True ''Title''
              [Node 1 ''lung'' False ''Title'' [], Node 2 ''breast'' False ''Title'' []]\<rparr>\<rparr>]"
proof -
  let ?q = "\<lparr>query_tree = \<lparr>root = Node 0 ''OR'' True ''Title''
            [Node 1 ''lung'' False ''Title'' [], Node 2 ''breast'' False ''Title'' []]\<rparr>\<rparr>"
  have h: "Query_init \<lparr>next_id = 3, marked = {}\<rparr> ''AND'' [''cancer''] [?q] ''Abstract''
           = Inr (\<lparr>next_id = 5, marked = {}\<rparr>,
                  \<lparr>query_tree = \<lparr>root = Node 3 ''AND'' True ''Abstract''
                     [Node 4 ''cancer'' False ''Abstract'' [],
                      Node 0 ''OR'' True ''Title''
                        [Node 1 ''lung'' False ''Title'' [],
                         Node 2 ''breast'' False ''Title'' []]]\<rparr>\<rparr>)"
    by (simp add: construction_defs)
  show ?thesis
    using Query_init_children[OF h] h by simp
qed




subsection \<open>Search fields that the tables do not map\<close>

lemma get_search_field_wos_cases:
  "get_search_field_wos f = Inl UnboundLocalError \<and> f \<notin> set field_names
   \<or> (\<exists>c. get_search_field_wos f = Inr c) \<and> f \<in> set field_names"
  by (simp add: get_search_field_wos_def field_names_def)

lemma get_search_field_pubmed_cases:
  "get_search_field_pubmed f = Inl UnboundLocalError \<and> f \<notin> set field_names
   \<or> (\<exists>c. get_search_field_pubmed f = Inr c) \<and> f \<in> set field_names"
  by (simp add: get_search_field_pubmed_def field_names_def)

lemma unmapped_simps [simp]:
  "unmapped [] = False"
  "unmapped (xs @ ys) = (unmapped xs \<or> unmapped ys)"
  "unmapped (c # cs) = (search_field c \<notin> set field_names \<or> unmapped cs)"
  by (auto simp: unmapped_def)

lemma outcome_simps [simp]:
  "outcome r True = (r = Inl UnboundLocalError)"
  "outcome r False = (\<exists>s. r = Inr s)"
  by (simp_all add: outcome_def)

lemma pubmed_outcome:
  "outcome (print_query_pubmed node) (unmapped (term_nodes_of node))"
  "outcome (pubmed_loop node cs result) (unmapped (term_nodes_of_list cs))"
proof (induction node and node cs result rule: print_query_pubmed_pubmed_loop.induct)
  case (1 node)
  then show ?case by (cases node) (simp del: pubmed_loop.simps)
next
  case (2 node result)
  then show ?case by simp
next
  case (3 node child rest result)
  show ?case
  proof (cases "operator child")
    case False
    show ?thesis
    proof (cases "search_field child \<in> set field_names")
      case True
      then obtain b where b: "get_search_field_pubmed (search_field child) = Inr b"
        using get_search_field_pubmed_cases[of "search_field child"] by auto
      show ?thesis
        using 3(1)[OF False b refl] False True b by (simp add: Let_def split: if_splits)
    next
      case bad: False
      then have "get_search_field_pubmed (search_field child) = Inl UnboundLocalError"
        using get_search_field_pubmed_cases[of "search_field child"] by auto
      then show ?thesis
        using False bad by simp
    qed
  next
    case True
    show ?thesis
    proof (cases "unmapped (term_nodes_of child)")
      case bad: True
      then have "print_query_pubmed child = Inl UnboundLocalError"
        using 3(2) True by simp
      then show ?thesis
        using True bad by simp
    next
      case False
      then obtain b where b: "print_query_pubmed child = Inr b"
        using 3(2) True by auto
      show ?thesis
        using 3(3)[OF _ b refl] True False b by (simp add: Let_def split: if_splits)
    qed
  qed
qed


lemma wos_outcome:
  "outcome (print_query_wos node) (unmapped (first_term_nodes_of node))"
  "outcome (wos_loop node cs result) (unmapped (first_term_nodes_of_list node cs))"
proof (induction node and node cs result rule: print_query_wos_wos_loop.induct)
  case (1 node)
  then show ?case by (simp del: wos_loop.simps first_term_nodes_of_list.simps)
next
  case (2 node result)
  then show ?case by simp
next
  case (3 node child rest result)
  show ?case
  proof (cases "operator child")
    case False
    show ?thesis
    proof (cases "first_not_last node child")
      case first: True
      show ?thesis
      proof (cases "search_field child \<in> set field_names")
        case True
        then obtain b where b: "get_search_field_wos (search_field child) = Inr b"
          using get_search_field_wos_cases[of "search_field child"] by auto
        have "(if first_not_last node child
               then case get_search_field_wos (search_field child) of
                      Inl x \<Rightarrow> Inl x
                    | Inr code \<Rightarrow> Inr (result @ code @ ''=('' @ node_value child)
               else Inr (result @ '' '' @ node_value node @ '' '' @ node_value child))
              = Inr (result @ b @ ''=('' @ node_value child)"
          using first b by simp
        from 3(1)[OF False this] show ?thesis
          using False first True b by (simp split: if_splits)
      next
        case bad: False
        then have "get_search_field_wos (search_field child) = Inl UnboundLocalError"
          using get_search_field_wos_cases[of "search_field child"] by auto
        then show ?thesis
          using False first bad by simp
      qed
    next
      case other: False
      have "(if first_not_last node child
             then case get_search_field_wos (search_field child) of
                    Inl x \<Rightarrow> Inl x
                  | Inr code \<Rightarrow> Inr (result @ code @ ''=('' @ node_value child)
             else Inr (result @ '' '' @ node_value node @ '' '' @ node_value child))
            = Inr (result @ '' '' @ node_value node @ '' '' @ node_value child)"
        using other by simp
      from 3(1)[OF False this] show ?thesis
        using False other by (simp split: if_splits)
    qed
  next
    case True
    show ?thesis
    proof (cases "unmapped (first_term_nodes_of child)")
      case bad: True
      then have "print_query_wos child = Inl UnboundLocalError"
        using 3(2) True by (simp del: print_query_wos.simps first_term_nodes_of.simps)
      then show ?thesis
        using True bad by (simp del: print_query_wos.simps first_term_nodes_of.simps)
    next
      case False
      then obtain b where b: "print_query_wos child = Inr b"
        using 3(2) True by (auto simp del: print_query_wos.simps first_term_nodes_of.simps)
      show ?thesis
        using 3(3)[OF _ b refl] True False b
        by (simp add: Let_def del: print_query_wos.simps first_term_nodes_of.simps
              split: if_splits)
    qed
  qed
qed

text \<open>
  Claim C5, as stated, says that serialization with the syntax "wos" aborts with an
  error for every tree that contains a term node whose search field is not in the
  WoS table. The query AND with the search terms "a" and "b", the search field "Title"
  and the nested query NOT with the search term "robot" and the search field "Language"
  is such a tree, and its serialization returns a string: the operand of the NOT is
  rendered without a field code.
\<close>

theorem not_operand_example_counterexample:
  "''Language'' \<notin> set field_names
   \<and> not_operand_example \<lparr>next_id = 0, marked = {}\<rparr> ''Language'' ''wos''
     = Inr ''TI=(a AND b NOT robot)''"
  by (simp add: field_names_def not_operand_example_def construction_defs serializer_defs)

text \<open>
  Claim C5, amended. Serialization with the syntax "pubmed" aborts with an error
  (and returns no string) iff the tree has a term node whose search field is not in
  the PubMed table; otherwise it returns a string. Serialization with the syntax
  "wos" aborts with an error (and returns no string) whenever a term node that is the
  first but not the last child of its parent, the place where the field code of a run
  of terms is emitted, has a search field that is not in the WoS table. The operand of
  a nested NOT is rendered without a field code, so its search field is not looked up:
  the query AND with the search terms "a" and "b", the search field "Title" and the
  nested query NOT with the search term "robot" is serialized to
  \<^verbatim>\<open>TI=(a AND b NOT robot)\<close> whatever the search field of the nested query is.
\<close>

theorem unmapped_field_serialization:
  "(to_string q ''pubmed'' = Inl UnboundLocalError)
     = unmapped (term_nodes_of (root (query_tree q)))
   \<and> (\<exists>s. to_string q ''pubmed'' = Inr s)
     = (\<not> unmapped (term_nodes_of (root (query_tree q))))
   \<and> (unmapped (first_term_nodes_of (root (query_tree q)))
      \<longrightarrow> to_string q ''wos'' = Inl UnboundLocalError)
   \<and> not_operand_example st field ''wos'' = Inr ''TI=(a AND b NOT robot)''"
proof -
  have "outcome (to_string q ''pubmed'') (unmapped (term_nodes_of (root (query_tree q))))"
    using pubmed_outcome(1)[of "root (query_tree q)"] by (simp add: to_string_def)
  moreover
  have "outcome (to_string q ''wos'') (unmapped (first_term_nodes_of (root (query_tree q))))"
    using wos_outcome(1)[of "root (query_tree q)"] by (simp add: to_string_def)
  moreover
  have "not_operand_example st field ''wos'' = Inr ''TI=(a AND b NOT robot)''"
    by (simp add: not_operand_example_def construction_defs serializer_defs)
  ultimately show ?thesis
    by (auto simp: outcome_def split: if_splits)
qed

theorem unmapped_field_serialization_witness:
  "to_string \<lparr>query_tree = \<lparr>root = Node 0 ''AND'' True ''Language''
       [Node 1 ''covid'' False ''Language'' [], Node 2 ''lung'' False ''Language'' []]\<rparr>\<rparr> ''wos''
     = Inl UnboundLocalError
   \<and> to_string \<lparr>query_tree = \<lparr>root = Node 0 ''AND'' True ''Language''
       [Node 1 ''covid'' False ''Language'' [], Node 2 ''lung'' False ''Language'' []]\<rparr>\<rparr> ''pubmed''
     = Inl UnboundLocalError"
  using unmapped_field_serialization[of
      "\<lparr>query_tree = \<lparr>root = Node 0 ''AND'' True ''Language''
         [Node 1 ''covid'' False ''Language'' [], Node 2 ''lung'' False ''Language'' []]\<rparr>\<rparr>"]
  by (simp add: field_names_def first_not_last_def same_def)

subsection \<open>Upper case and the matches of the operator pattern\<close>

lemma of_char_lt: "(of_char c :: nat) < 256"
  by (cases c) simp

lemma of_char_upper:
  "(of_char (char_upper c) :: nat)
   = (if 97 \<le> (of_char c :: nat) \<and> (of_char c :: nat) \<le> 122 then of_char c - 32 else of_char c)"
proof (cases "97 \<le> (of_char c :: nat) \<and> (of_char c :: nat) \<le> 122")
  case True
  have up: "char_upper c = char_of ((of_char c :: nat) - 32)"
    unfolding char_upper_def Let_def using True by (rule if_P)
  from True have "(of_char c :: nat) - 32 < 256" by arith
  then have "((of_char c :: nat) - 32) mod 256 = of_char c - 32" by (rule mod_less)
  then have "(of_char (char_upper c) :: nat) = of_char c - 32"
    unfolding up by simp
  then show ?thesis using True by (simp only: if_True simp_thms)
next
  case False
  have up: "char_upper c = c"
    unfolding char_upper_def Let_def using False by (rule if_not_P)
  show ?thesis unfolding up using False by (simp only: if_False simp_thms)
qed

lemma char_upper_idem: "char_upper (char_upper c) = char_upper c"
proof -
  define n where "n = (of_char c :: nat)"
  define m where "m = (of_char (char_upper c) :: nat)"
  have m: "m = (if 97 \<le> n \<and> n \<le> 122 then n - 32 else n)"
    unfolding m_def n_def by (rule of_char_upper)
  have "(of_char (char_upper (char_upper c)) :: nat)
        = (if 97 \<le> m \<and> m \<le> 122 then m - 32 else m)"
    unfolding m_def by (rule of_char_upper)
  also have "\<dots> = m"
  proof (cases "97 \<le> n \<and> n \<le> 122")
    case True
    have "m = n - 32" unfolding m using True by (rule if_P)
    with True have "\<not> (97 \<le> m \<and> m \<le> 122)" by arith
    then show ?thesis by (rule if_not_P)
  next
    case False
    have "m = n" unfolding m using False by (rule if_not_P)
    with False have "\<not> (97 \<le> m \<and> m \<le> 122)" by blast
    then show ?thesis by (rule if_not_P)
  qed
  finally show ?thesis unfolding m_def by simp
qed

lemma is_word_char_upper: "is_word_char (char_upper c) = is_word_char c"
proof -
  define n where "n = (of_char c :: nat)"
  define m where "m = (of_char (char_upper c) :: nat)"
  have m: "m = (if 97 \<le> n \<and> n \<le> 122 then n - 32 else n)"
    unfolding m_def n_def by (rule of_char_upper)
  have "is_word_char (char_upper c) =
     ((48 \<le> m \<and> m \<le> 57) \<or> (65 \<le> m \<and> m \<le> 90) \<or> m = 95 \<or> (97 \<le> m \<and> m \<le> 122)
         \<or> m = 170 \<or> m = 178 \<or> m = 179 \<or> m = 181 \<or> m = 185 \<or> m = 186
         \<or> (188 \<le> m \<and> m \<le> 190) \<or> (192 \<le> m \<and> m \<le> 214) \<or> (216 \<le> m \<and> m \<le> 246)
         \<or> 248 \<le> m)"
    unfolding is_word_char_def Let_def m_def ..
  moreover have "is_word_char c =
     ((48 \<le> n \<and> n \<le> 57) \<or> (65 \<le> n \<and> n \<le> 90) \<or> n = 95 \<or> (97 \<le> n \<and> n \<le> 122)
         \<or> n = 170 \<or> n = 178 \<or> n = 179 \<or> n = 181 \<or> n = 185 \<or> n = 186
         \<or> (188 \<le> n \<and> n \<le> 190) \<or> (192 \<le> n \<and> n \<le> 214) \<or> (216 \<le> n \<and> n \<le> 246)
         \<or> 248 \<le> n)"
    unfolding is_word_char_def Let_def n_def ..
  ultimately show ?thesis
  proof (cases "97 \<le> n \<and> n \<le> 122")
    case True
    have "m = n - 32" unfolding m using True by (rule if_P)
    with True have "65 \<le> m \<and> m \<le> 90" by arith
    with True \<open>is_word_char (char_upper c) = _\<close> \<open>is_word_char c = _\<close>
    show ?thesis by blast
  next
    case False
    have "m = n" unfolding m using False by (rule if_not_P)
    with \<open>is_word_char (char_upper c) = _\<close> \<open>is_word_char c = _\<close>
    show ?thesis by (simp only:)
  qed
qed


lemma char_upper_eq:
  assumes "65 \<le> (of_char u :: nat)" "(of_char u :: nat) \<le> 90"
  shows "(char_upper c = u) = (c = u \<or> (of_char c :: nat) = of_char u + 32)"
proof -
  define n where "n = (of_char c :: nat)"
  define k where "k = (of_char u :: nat)"
  define m where "m = (of_char (char_upper c) :: nat)"
  have m: "m = (if 97 \<le> n \<and> n \<le> 122 then n - 32 else n)"
    unfolding m_def n_def by (rule of_char_upper)
  have k: "65 \<le> k" "k \<le> 90" using assms unfolding k_def by simp_all
  have "(char_upper c = u) = (m = k)"
    unfolding m_def k_def by simp
  also have "\<dots> = (n = k \<or> n = k + 32)"
  proof (cases "97 \<le> n \<and> n \<le> 122")
    case True
    have "m = n - 32" unfolding m using True by (rule if_P)
    with True k show ?thesis by arith
  next
    case False
    have "m = n" unfolding m using False by (rule if_not_P)
    with False k show ?thesis by arith
  qed
  also have "\<dots> = (c = u \<or> (of_char c :: nat) = of_char u + 32)"
    unfolding n_def k_def by simp
  finally show ?thesis .
qed

lemma in_letters:
  "(c \<in> set ''aA'') = (char_upper c = CHR ''A'')"
  "(c \<in> set ''nN'') = (char_upper c = CHR ''N'')"
  "(c \<in> set ''dD'') = (char_upper c = CHR ''D'')"
  "(c \<in> set ''oO'') = (char_upper c = CHR ''O'')"
  "(c \<in> set ''rR'') = (char_upper c = CHR ''R'')"
  "(c \<in> set ''tT'') = (char_upper c = CHR ''T'')"
proof -
  have a: "(c = CHR ''a'') = ((of_char c :: nat) = 97)"
    using of_char_eq_iff[of c "CHR ''a''", where ?'a = nat] by simp
  have n: "(c = CHR ''n'') = ((of_char c :: nat) = 110)"
    using of_char_eq_iff[of c "CHR ''n''", where ?'a = nat] by simp
  have d: "(c = CHR ''d'') = ((of_char c :: nat) = 100)"
    using of_char_eq_iff[of c "CHR ''d''", where ?'a = nat] by simp
  have o: "(c = CHR ''o'') = ((of_char c :: nat) = 111)"
    using of_char_eq_iff[of c "CHR ''o''", where ?'a = nat] by simp
  have r: "(c = CHR ''r'') = ((of_char c :: nat) = 114)"
    using of_char_eq_iff[of c "CHR ''r''", where ?'a = nat] by simp
  have t: "(c = CHR ''t'') = ((of_char c :: nat) = 116)"
    using of_char_eq_iff[of c "CHR ''t''", where ?'a = nat] by simp
  show "(c \<in> set ''aA'') = (char_upper c = CHR ''A'')"
    using char_upper_eq[of "CHR ''A''" c] a by auto
  show "(c \<in> set ''nN'') = (char_upper c = CHR ''N'')"
    using char_upper_eq[of "CHR ''N''" c] n by auto
  show "(c \<in> set ''dD'') = (char_upper c = CHR ''D'')"
    using char_upper_eq[of "CHR ''D''" c] d by auto
  show "(c \<in> set ''oO'') = (char_upper c = CHR ''O'')"
    using char_upper_eq[of "CHR ''O''" c] o by auto
  show "(c \<in> set ''rR'') = (char_upper c = CHR ''R'')"
    using char_upper_eq[of "CHR ''R''" c] r by auto
  show "(c \<in> set ''tT'') = (char_upper c = CHR ''T'')"
    using char_upper_eq[of "CHR ''T''" c] t by auto
qed

lemma upper_eq_iff:
  "(upper s' = upper s)
   = (length s' = length s \<and> (\<forall>j < length s. char_upper (s' ! j) = char_upper (s ! j)))"
  unfolding upper_def by (auto simp: list_eq_iff_nth_eq)

lemma length_upper [simp]: "length (upper s) = length s"
  by (simp add: upper_def)

lemma upper_upper [simp]: "upper (upper s) = upper s"
  by (simp add: upper_def char_upper_idem)

lemma word_at_upper:
  assumes "upper s' = upper s"
  shows "word_at s' i = word_at s i"
proof -
  have len: "length s' = length s"
    and nth: "\<And>j. j < length s \<Longrightarrow> char_upper (s' ! j) = char_upper (s ! j)"
    using assms unfolding upper_eq_iff by simp_all
  show ?thesis
  proof (cases "i < length s")
    case True
    have "is_word_char (s' ! i) = is_word_char (char_upper (s' ! i))"
      by (simp only: is_word_char_upper)
    also have "\<dots> = is_word_char (char_upper (s ! i))"
      by (simp only: nth[OF True])
    also have "\<dots> = is_word_char (s ! i)"
      by (simp only: is_word_char_upper)
    finally show ?thesis
      unfolding word_at_def len using True by simp
  next
    case False
    then show ?thesis
      unfolding word_at_def len by simp
  qed
qed

lemma word_before_at: "word_before s i = (0 < i \<and> word_at s (i - 1))"
  unfolding word_before_def word_at_def by auto

lemma word_boundary_upper:
  assumes "upper s' = upper s"
  shows "word_boundary s' i = word_boundary s i"
  unfolding word_boundary_def word_before_at word_at_upper[OF assms] ..

lemma char_in_letters:
  "char_in s i ''aA'' = (i < length s \<and> char_upper (s ! i) = CHR ''A'')"
  "char_in s i ''nN'' = (i < length s \<and> char_upper (s ! i) = CHR ''N'')"
  "char_in s i ''dD'' = (i < length s \<and> char_upper (s ! i) = CHR ''D'')"
  "char_in s i ''oO'' = (i < length s \<and> char_upper (s ! i) = CHR ''O'')"
  "char_in s i ''rR'' = (i < length s \<and> char_upper (s ! i) = CHR ''R'')"
  "char_in s i ''tT'' = (i < length s \<and> char_upper (s ! i) = CHR ''T'')"
  unfolding char_in_def in_letters by (rule refl)+

lemma char_in_upper:
  assumes "upper s' = upper s"
  shows "char_in s' i ''aA'' = char_in s i ''aA''"
    and "char_in s' i ''nN'' = char_in s i ''nN''"
    and "char_in s' i ''dD'' = char_in s i ''dD''"
    and "char_in s' i ''oO'' = char_in s i ''oO''"
    and "char_in s' i ''rR'' = char_in s i ''rR''"
    and "char_in s' i ''tT'' = char_in s i ''tT''"
proof -
  have len: "length s' = length s"
    and nth: "\<And>j. j < length s \<Longrightarrow> char_upper (s' ! j) = char_upper (s ! j)"
    using assms unfolding upper_eq_iff by simp_all
  have "\<And>u. (i < length s' \<and> char_upper (s' ! i) = u) = (i < length s \<and> char_upper (s ! i) = u)"
    unfolding len using nth by (cases "i < length s") simp_all
  then show "char_in s' i ''aA'' = char_in s i ''aA''"
    and "char_in s' i ''nN'' = char_in s i ''nN''"
    and "char_in s' i ''dD'' = char_in s i ''dD''"
    and "char_in s' i ''oO'' = char_in s i ''oO''"
    and "char_in s' i ''rR'' = char_in s i ''rR''"
    and "char_in s' i ''tT'' = char_in s i ''tT''"
    unfolding char_in_letters by (simp_all only:)
qed

lemma match_faulty_operator_upper:
  assumes "upper s' = upper s"
  shows "match_faulty_operator s' i = match_faulty_operator s i"
  unfolding match_faulty_operator_def word_boundary_upper[OF assms] char_in_upper[OF assms] ..

lemma finditer_from_cong:
  "(\<And>i. m s' i = m s i) \<Longrightarrow> length s' = length s
   \<Longrightarrow> finditer_from m s' i = finditer_from m s i"
proof (induction m s i rule: finditer_from.induct)
  case (1 m s i)
  note m = "1.prems"(1) and len = "1.prems"(2)
  show ?case
  proof (cases "length s < i")
    case True
    then show ?thesis
      using len by (simp add: finditer_from.simps[of m s i] finditer_from.simps[of m s' i])
  next
    case False
    show ?thesis
    proof (cases "m s i")
      case None
      have "finditer_from m s' (i + 1) = finditer_from m s (i + 1)"
        using "1.IH"(1)[OF False None] m len by simp
      then show ?thesis
        using False None len m[of i]
        by (simp add: finditer_from.simps[of m s i] finditer_from.simps[of m s' i])
    next
      case (Some e)
      have "finditer_from m s' (if i < e then e else i + 1)
            = finditer_from m s (if i < e then e else i + 1)"
        using "1.IH"(2)[OF False Some] m len by simp
      then show ?thesis
        using False Some len m[of i]
        by (simp add: finditer_from.simps[of m s i] finditer_from.simps[of m s' i])
    qed
  qed
qed

lemma finditer_from_spans:
  "(a, b) \<in> set (finditer_from m s i) \<Longrightarrow> m s a = Some b \<and> i \<le> a \<and> a \<le> length s"
proof (induction m s i rule: finditer_from.induct)
  case (1 m s i)
  show ?case
  proof (cases "length s < i")
    case True
    then show ?thesis
      using "1.prems" by (simp add: finditer_from.simps[of m s i])
  next
    case False
    show ?thesis
    proof (cases "m s i")
      case None
      then have "(a, b) \<in> set (finditer_from m s (i + 1))"
        using "1.prems" False by (simp add: finditer_from.simps[of m s i])
      from "1.IH"(1)[OF False None this] show ?thesis by simp
    next
      case (Some e)
      then have "(a, b) = (i, e) \<or> (a, b) \<in> set (finditer_from m s (if i < e then e else i + 1))"
        using "1.prems" False by (simp add: finditer_from.simps[of m s i])
      then show ?thesis
      proof
        assume "(a, b) = (i, e)"
        then show ?thesis using Some False by simp
      next
        assume "(a, b) \<in> set (finditer_from m s (if i < e then e else i + 1))"
        from "1.IH"(2)[OF False Some this] show ?thesis by (auto split: if_splits)
      qed
    qed
  qed
qed

lemma match_faulty_operator_Some:
  assumes "match_faulty_operator s a = Some b"
  shows "a < b" and "b \<le> length s"
  using assms unfolding match_faulty_operator_def char_in_def
  by (auto split: if_splits)

lemma finditer_faulty_spans:
  assumes "(a, b) \<in> set (finditer match_faulty_operator s)"
  shows "match_faulty_operator s a = Some b" and "a < b" and "b \<le> length s"
proof -
  show m: "match_faulty_operator s a = Some b"
    using finditer_from_spans[of a b match_faulty_operator s 0] assms
    unfolding finditer_def by simp
  show "a < b" and "b \<le> length s"
    using match_faulty_operator_Some[OF m] by simp_all
qed

lemma replace_slice_length:
  assumes "a \<le> b" "b \<le> length q" "length r = b - a"
  shows "length (replace_slice q a b r) = length q"
  using assms unfolding replace_slice_def by simp

lemma replace_slice_nth:
  assumes "a \<le> b" "b \<le> length q" "length r = b - a" "j < length q"
  shows "replace_slice q a b r ! j = (if a \<le> j \<and> j < b then r ! (j - a) else q ! j)"
proof -
  consider "j < a" | "a \<le> j" "j < b" | "b \<le> j" by linarith
  then show ?thesis
  proof cases
    case 1
    then show ?thesis
      using assms unfolding replace_slice_def by (simp add: nth_append)
  next
    case 2
    then have "j - a < b - a" by linarith
    with 2 show ?thesis
      using assms unfolding replace_slice_def by (simp add: nth_append)
  next
    case 3
    then have "j - a - (b - a) = j - b" and "\<not> j - a < b - a" and "\<not> j < a"
      using assms by simp_all
    with 3 show ?thesis
      using assms unfolding replace_slice_def by (simp add: nth_append)
  qed
qed

lemma slice_length: "b \<le> length s \<Longrightarrow> length (slice s a b) = b - a"
  unfolding slice_def by simp

lemma slice_nth: "b \<le> length s \<Longrightarrow> k < b - a \<Longrightarrow> slice s a b ! k = s ! (a + k)"
  unfolding slice_def by simp

lemma upper_nth: "k < length s \<Longrightarrow> upper s ! k = char_upper (s ! k)"
  unfolding upper_def by simp

lemma length_capitalized [simp]: "length (capitalized s spans) = length s"
  by (simp add: capitalized_def)

lemma capitalized_nth:
  "j < length s \<Longrightarrow>
     capitalized s spans ! j = (if covered spans j then char_upper (s ! j) else s ! j)"
  by (simp add: capitalized_def)

lemma covered_append: "covered (xs @ ys) j = (covered xs j \<or> covered ys j)"
  by (auto simp: covered_def)

lemma covered_single: "covered [(a, b)] j = (a \<le> j \<and> j < b)"
  by (simp add: covered_def)

lemma slice_upper_iff:
  assumes "b \<le> length s"
  shows "(slice s a b = upper (slice s a b)) = (\<forall>j. a \<le> j \<and> j < b \<longrightarrow> char_upper (s ! j) = s ! j)"
proof -
  have "(slice s a b = upper (slice s a b))
        = (\<forall>k < b - a. slice s a b ! k = char_upper (slice s a b ! k))"
    using assms by (auto simp: list_eq_iff_nth_eq slice_length upper_nth)
  also have "\<dots> = (\<forall>k < b - a. s ! (a + k) = char_upper (s ! (a + k)))"
    using assms by (simp add: slice_nth)
  also have "\<dots> = (\<forall>j. a \<le> j \<and> j < b \<longrightarrow> char_upper (s ! j) = s ! j)"
  proof
    assume h: "\<forall>k < b - a. s ! (a + k) = char_upper (s ! (a + k))"
    show "\<forall>j. a \<le> j \<and> j < b \<longrightarrow> char_upper (s ! j) = s ! j"
    proof (intro allI impI)
      fix j assume j: "a \<le> j \<and> j < b"
      then have "j - a < b - a" by linarith
      from h[rule_format, OF this] j show "char_upper (s ! j) = s ! j" by simp
    qed
  next
    assume h: "\<forall>j. a \<le> j \<and> j < b \<longrightarrow> char_upper (s ! j) = s ! j"
    show "\<forall>k < b - a. s ! (a + k) = char_upper (s ! (a + k))"
    proof (intro allI impI)
      fix k assume "k < b - a"
      then have "a \<le> a + k \<and> a + k < b" by linarith
      from h[rule_format, OF this] show "s ! (a + k) = char_upper (s ! (a + k))" by simp
    qed
  qed
  finally show ?thesis .
qed

lemma check_operator_step_query_str:
  assumes ab: "a < b" "b \<le> length s"
    and q: "query_str v = capitalized s seen"
  shows "query_str (check_operator_step s (a, b) v) = capitalized s (seen @ [(a, b)])"
proof (cases "slice s a b = upper (slice s a b)")
  case True
  then have fixed: "\<And>j. a \<le> j \<Longrightarrow> j < b \<Longrightarrow> char_upper (s ! j) = s ! j"
    unfolding slice_upper_iff[OF ab(2)] by simp
  have "capitalized s (seen @ [(a, b)]) = capitalized s seen"
    by (rule nth_equalityI)
       (auto simp: capitalized_nth covered_append covered_single fixed)
  then show ?thesis
    using True q by (simp add: check_operator_step_def)
next
  case False
  let ?r = "upper (slice s a b)"
  have len: "length ?r = b - a"
    using ab by (simp add: slice_length)
  have lq: "length (capitalized s seen) = length s" by simp
  have "replace_slice (capitalized s seen) a b ?r = capitalized s (seen @ [(a, b)])"
  proof (rule nth_equalityI)
    show "length (replace_slice (capitalized s seen) a b ?r)
          = length (capitalized s (seen @ [(a, b)]))"
      using ab len by (simp add: replace_slice_length)
  next
    fix j assume "j < length (replace_slice (capitalized s seen) a b ?r)"
    then have j: "j < length s"
      using ab len by (simp add: replace_slice_length)
    have "replace_slice (capitalized s seen) a b ?r ! j
          = (if a \<le> j \<and> j < b then ?r ! (j - a) else capitalized s seen ! j)"
      using ab len j by (intro replace_slice_nth) simp_all
    also have "\<dots> = (if a \<le> j \<and> j < b then char_upper (s ! j) else capitalized s seen ! j)"
      using ab by (auto simp: upper_nth slice_length slice_nth)
    also have "\<dots> = capitalized s (seen @ [(a, b)]) ! j"
      using j by (auto simp: capitalized_nth covered_append covered_single)
    finally show "replace_slice (capitalized s seen) a b ?r ! j
                  = capitalized s (seen @ [(a, b)]) ! j" .
  qed
  then show ?thesis
    using False q by (simp add: check_operator_step_def Let_def)
qed

subsection \<open>The operator check on every query string\<close>

lemma match_faulty_operator_letters:
  assumes "match_faulty_operator s a = Some b" and "a \<le> j" and "j < b"
  shows "s ! j \<in> set ''aAnNdDoOrRtT''"
proof -
  consider
      (and_op) "b = a + 3" "s ! a \<in> set ''aA''" "s ! (a + 1) \<in> set ''nN''" "s ! (a + 2) \<in> set ''dD''"
    | (or_op) "b = a + 2" "s ! a \<in> set ''oO''" "s ! (a + 1) \<in> set ''rR''"
    | (not_op) "b = a + 3" "s ! a \<in> set ''nN''" "s ! (a + 1) \<in> set ''oO''" "s ! (a + 2) \<in> set ''tT''"
    using assms(1) unfolding match_faulty_operator_def char_in_def
    by (auto split: if_splits)
  then show ?thesis
  proof cases
    case and_op
    then have "j = a \<or> j = a + 1 \<or> j = a + 2" using assms(2,3) by linarith
    with and_op show ?thesis by auto
  next
    case or_op
    then have "j = a \<or> j = a + 1" using assms(2,3) by linarith
    with or_op show ?thesis by auto
  next
    case not_op
    then have "j = a \<or> j = a + 1 \<or> j = a + 2" using assms(2,3) by linarith
    with not_op show ?thesis by auto
  qed
qed

lemma capitalized_Nil: "capitalized s [] = s"
  by (rule nth_equalityI) (simp_all add: capitalized_nth covered_def)

lemma fold_check_operator_query_str:
  assumes "\<forall>(a, b) \<in> set spans. a < b \<and> b \<le> length s"
    and "query_str v = capitalized s seen"
  shows "query_str (fold (check_operator_step s) spans v) = capitalized s (seen @ spans)"
  using assms
proof (induction spans arbitrary: v seen)
  case Nil
  then show ?case by simp
next
  case (Cons span spans)
  obtain a b where span: "span = (a, b)" by (cases span)
  have ab: "a < b" "b \<le> length s"
    using Cons.prems(1) span by simp_all
  have "query_str (check_operator_step s span v) = capitalized s (seen @ [span])"
    unfolding span by (rule check_operator_step_query_str[OF ab Cons.prems(2)])
  moreover have "\<forall>(a, b) \<in> set spans. a < b \<and> b \<le> length s"
    using Cons.prems(1) by simp
  ultimately have "query_str (fold (check_operator_step s) spans (check_operator_step s span v))
        = capitalized s ((seen @ [span]) @ spans)"
    by (rule Cons.IH[rotated])
  then show ?case by simp
qed

lemma check_operator_step_messages:
  "linter_messages (check_operator_step s span v)
   = linter_messages v
     @ (if lower_case_operator s span then [capitalized_warning s span] else [])"
  by (simp add: check_operator_step_def Let_def lower_case_operator_def
        capitalized_warning_def)

lemma fold_check_operator_messages:
  "linter_messages (fold (check_operator_step s) spans v)
   = linter_messages v @ map (capitalized_warning s) (filter (lower_case_operator s) spans)"
proof (induction spans arbitrary: v)
  case Nil
  then show ?case by simp
next
  case (Cons span spans)
  show ?case
    by (simp add: Cons.IH check_operator_step_messages)
qed

lemma check_operator_step_general:
  "search_field_general (check_operator_step s span v) = search_field_general v"
  by (simp add: check_operator_step_def Let_def)

lemma fold_check_operator_general:
  "search_field_general (fold (check_operator_step s) spans v) = search_field_general v"
proof (induction spans arbitrary: v)
  case Nil
  then show ?case by simp
next
  case (Cons span spans)
  show ?case
    by (simp add: Cons.IH check_operator_step_general)
qed

lemma check_operator_eq:
  "query_str (check_operator v)
   = capitalized (query_str v) (finditer match_faulty_operator (query_str v))"
  "linter_messages (check_operator v)
   = map (capitalized_warning (query_str v))
       (filter (lower_case_operator (query_str v))
          (finditer match_faulty_operator (query_str v)))"
  "search_field_general (check_operator v) = search_field_general v"
proof -
  let ?s = "query_str v"
  let ?spans = "finditer match_faulty_operator ?s"
  have spans: "\<forall>(a, b) \<in> set ?spans. a < b \<and> b \<le> length ?s"
    using finditer_faulty_spans(2,3) by blast
  have "query_str (v\<lparr>linter_messages := []\<rparr>) = capitalized ?s []"
    by (simp add: capitalized_Nil)
  from fold_check_operator_query_str[OF spans this]
  show "query_str (check_operator v) = capitalized ?s ?spans"
    unfolding check_operator_def by simp
  show "linter_messages (check_operator v)
        = map (capitalized_warning ?s) (filter (lower_case_operator ?s) ?spans)"
    unfolding check_operator_def fold_check_operator_messages by simp
  show "search_field_general (check_operator v) = search_field_general v"
    unfolding check_operator_def fold_check_operator_general by simp
qed

lemma upper_capitalized: "upper (capitalized s spans) = upper s"
  unfolding upper_eq_iff by (simp add: capitalized_nth char_upper_idem)

lemma finditer_capitalized:
  "finditer match_faulty_operator (capitalized s spans) = finditer match_faulty_operator s"
  unfolding finditer_def
  by (rule finditer_from_cong)
     (simp_all add: match_faulty_operator_upper[OF upper_capitalized])

lemma slice_capitalized:
  assumes "(a, b) \<in> set spans" and "b \<le> length s"
  shows "slice (capitalized s spans) a b = upper (slice s a b)"
proof (rule nth_equalityI)
  show "length (slice (capitalized s spans) a b) = length (upper (slice s a b))"
    using assms(2) by (simp add: slice_length)
next
  fix k assume "k < length (slice (capitalized s spans) a b)"
  then have k: "k < b - a"
    using assms(2) by (simp add: slice_length)
  then have "a \<le> a + k \<and> a + k < b" by linarith
  then have "covered spans (a + k)"
    unfolding covered_def using assms(1) by (intro bexI[of _ "(a, b)"]) simp_all
  moreover have "a + k < length s"
    using k assms(2) by linarith
  ultimately show "slice (capitalized s spans) a b ! k = upper (slice s a b) ! k"
    using k assms(2) by (simp add: slice_nth slice_length upper_nth capitalized_nth)
qed

lemma no_lower_case_operator_capitalized:
  assumes "\<forall>(a, b) \<in> set spans. b \<le> length s"
  shows "filter (lower_case_operator (capitalized s spans)) spans = []"
proof -
  have "\<not> lower_case_operator (capitalized s spans) span" if "span \<in> set spans" for span
  proof -
    obtain a b where span: "span = (a, b)" by (cases span)
    have "b \<le> length s" using assms that span by auto
    from slice_capitalized[OF that[unfolded span] this]
    show ?thesis
      unfolding lower_case_operator_def span by simp
  qed
  then show ?thesis
    by (simp add: filter_empty_conv)
qed

lemma capitalized_capitalized: "capitalized (capitalized s spans) spans = capitalized s spans"
  by (rule nth_equalityI) (simp_all add: capitalized_nth char_upper_idem)

text \<open>
  Claim C9: for every query string (of code points below 256), a second run of
  \<open>check_operator\<close> after a first one leaves no message at all, hence no Warning. The
  first run has made the stored string a fixpoint: the second run leaves it as it is,
  and none of the matches of the operator pattern in it differs from its upper-case
  form. (The other field of the validator is unchanged.)
\<close>

theorem check_operator_idempotent:
  "linter_messages (check_operator (check_operator v)) = []
   \<and> query_str (check_operator (check_operator v)) = query_str (check_operator v)
   \<and> search_field_general (check_operator (check_operator v)) = search_field_general v
   \<and> filter (lower_case_operator (query_str (check_operator v)))
        (finditer match_faulty_operator (query_str (check_operator v))) = []"
proof -
  let ?s = "query_str v"
  let ?spans = "finditer match_faulty_operator ?s"
  have spans: "\<forall>(a, b) \<in> set ?spans. b \<le> length ?s"
    using finditer_faulty_spans(3) by blast
  have none: "filter (lower_case_operator (capitalized ?s ?spans)) ?spans = []"
    by (rule no_lower_case_operator_capitalized[OF spans])
  show ?thesis
    unfolding check_operator_eq finditer_capitalized capitalized_capitalized none
    by simp
qed

text \<open>
  Claim C10: for every query string (of code points below 256), \<open>check_operator\<close>
  \<^item> preserves the length of the stored query string;
  \<^item> changes characters only inside the spans of the matches of the operator pattern,
    more precisely inside the spans of the matches that are not in upper case, which
    are the spans the Warnings report, in the order of the matches;
  \<^item> leaves \<open>search_field_general\<close> unchanged;
  \<^item> so that every match span of the original string, and every reported span among
    them, still indexes the operator in the rewritten string: it lies within the
    string, holds the upper-case form of the text it held, and is a match of the
    operator pattern there.
\<close>

theorem check_operator_frame:
  "length (query_str (check_operator v)) = length (query_str v)
   \<and> (\<forall>j < length (query_str v).
        query_str (check_operator v) ! j \<noteq> query_str v ! j
        \<longrightarrow> covered (filter (lower_case_operator (query_str v))
                        (finditer match_faulty_operator (query_str v))) j)
   \<and> search_field_general (check_operator v) = search_field_general v
   \<and> map pos (linter_messages (check_operator v))
     = map (\<lambda>(a, b). Tuple (int a) (int b))
         (filter (lower_case_operator (query_str v))
            (finditer match_faulty_operator (query_str v)))
   \<and> (\<forall>(a, b) \<in> set (finditer match_faulty_operator (query_str v)).
        a < b \<and> b \<le> length (query_str (check_operator v))
        \<and> slice (query_str (check_operator v)) a b = upper (slice (query_str v) a b)
        \<and> match_faulty_operator (query_str (check_operator v)) a = Some b)"
proof (intro conjI)
  let ?s = "query_str v"
  let ?spans = "finditer match_faulty_operator ?s"
  show "length (query_str (check_operator v)) = length ?s"
    unfolding check_operator_eq by simp
  show "\<forall>j < length ?s. query_str (check_operator v) ! j \<noteq> ?s ! j
          \<longrightarrow> covered (filter (lower_case_operator ?s) ?spans) j"
  proof (intro allI impI)
    fix j assume j: "j < length ?s" and changed: "query_str (check_operator v) ! j \<noteq> ?s ! j"
    from changed have c: "covered ?spans j" and u: "char_upper (?s ! j) \<noteq> ?s ! j"
      unfolding check_operator_eq using j by (auto simp: capitalized_nth split: if_splits)
    from c obtain a b where ab: "(a, b) \<in> set ?spans" "a \<le> j" "j < b"
      unfolding covered_def by auto
    have "b \<le> length ?s" by (rule finditer_faulty_spans(3)[OF ab(1)])
    from slice_upper_iff[OF this, of a] have "slice ?s a b \<noteq> upper (slice ?s a b)"
      using ab(2,3) u by blast
    then have "lower_case_operator ?s (a, b)"
      unfolding lower_case_operator_def by simp
    then show "covered (filter (lower_case_operator ?s) ?spans) j"
      unfolding covered_def using ab by auto
  qed
  show "search_field_general (check_operator v) = search_field_general v"
    unfolding check_operator_eq ..
  show "map pos (linter_messages (check_operator v))
        = map (\<lambda>(a, b). Tuple (int a) (int b)) (filter (lower_case_operator ?s) ?spans)"
    unfolding check_operator_eq
    by (simp add: capitalized_warning_def comp_def case_prod_beta)
  show "\<forall>(a, b) \<in> set ?spans.
          a < b \<and> b \<le> length (query_str (check_operator v))
          \<and> slice (query_str (check_operator v)) a b = upper (slice ?s a b)
          \<and> match_faulty_operator (query_str (check_operator v)) a = Some b"
  proof (intro ballI, clarify)
    fix a b assume ab: "(a, b) \<in> set ?spans"
    note f = finditer_faulty_spans[OF ab]
    have "match_faulty_operator (capitalized ?s ?spans) a = Some b"
      unfolding match_faulty_operator_upper[OF upper_capitalized] by (rule f(1))
    then show "a < b \<and> b \<le> length (query_str (check_operator v))
          \<and> slice (query_str (check_operator v)) a b = upper (slice ?s a b)
          \<and> match_faulty_operator (query_str (check_operator v)) a = Some b"
      unfolding check_operator_eq using f slice_capitalized[OF ab f(3)] by simp
  qed
qed

theorem check_operator_frame_witness:
  "length (query_str (check_operator
       \<lparr>query_str = ''cancer and lung'', search_field_general = ''TI'', linter_messages = []\<rparr>))
     = 15
   \<and> covered (filter (lower_case_operator ''cancer and lung'')
        (finditer match_faulty_operator ''cancer and lung'')) 8
   \<and> slice (query_str (check_operator
         \<lparr>query_str = ''cancer and lung'', search_field_general = ''TI'',
           linter_messages = []\<rparr>)) 7 10
     = ''AND''
   \<and> match_faulty_operator (query_str (check_operator
         \<lparr>query_str = ''cancer and lung'', search_field_general = ''TI'',
           linter_messages = []\<rparr>)) 7
     = Some 10"
proof -
  let ?v = "\<lparr>query_str = ''cancer and lung'', search_field_general = ''TI'',
             linter_messages = []\<rparr>"
  have spans: "finditer match_faulty_operator ''cancer and lung'' = [(7, 10)]"
    by code_simp
  have run: "query_str (check_operator ?v) = ''cancer AND lung''"
    by code_simp
  have up: "upper (slice ''cancer and lung'' 7 10) = ''AND''"
    by code_simp
  have changed: "query_str (check_operator ?v) ! 8 \<noteq> ''cancer and lung'' ! 8"
    unfolding run by simp
  show ?thesis
    using check_operator_frame[of ?v] spans up changed by simp
qed

subsection \<open>The search field filter in non-strict mode\<close>

lemma slice_two: "i + 1 < length s \<Longrightarrow> slice s i (i + 2) = [s ! i, s ! (i + 1)]"
proof -
  assume a: "i + 1 < length s"
  then have "drop i s = s ! i # drop (Suc i) s" and "drop (Suc i) s = s ! (Suc i) # drop (Suc (Suc i)) s"
    by (simp_all add: Cons_nth_drop_Suc)
  then show ?thesis
    unfolding slice_def by simp
qed

lemma upper_AZ_facts:
  assumes "is_upper_AZ c"
  shows "is_word_char c" and "\<not> is_digit c" and "\<not> is_space c"
  using assms unfolding is_upper_AZ_def is_word_char_def is_digit_def is_space_def Let_def
  by auto

lemma strip_no_space:
  assumes "s \<noteq> []" "\<not> is_space (hd s)" "\<not> is_space (last s)"
  shows "strip s = s"
proof -
  have 1: "dropWhile is_space s = s"
    using assms(1,2) by (cases s) simp_all
  have "dropWhile is_space (rev s) = rev s"
    using assms(1,3) by (cases "rev s") (auto simp: last_rev[symmetric] hd_rev)
  then show ?thesis
    unfolding strip_def 1 by simp
qed

lemma field_token_strip:
  assumes "field_token s i"
  shows "strip (slice s i (i + 2)) = slice s i (i + 2)"
proof -
  have l: "i + 1 < length s" and u: "is_upper_AZ (s ! i)" "is_upper_AZ (s ! (i + 1))"
    using assms unfolding field_token_def by simp_all
  show ?thesis
    unfolding slice_two[OF l]
    using upper_AZ_facts(3)[OF u(1)] upper_AZ_facts(3)[OF u(2)]
    by (intro strip_no_space) simp_all
qed

lemma field_token_not_next:
  assumes "field_token s i"
  shows "\<not> field_token s (i + 1)"
proof -
  have l: "i + 1 < length s" and u: "is_upper_AZ (s ! i)" "is_upper_AZ (s ! (i + 1))"
    using assms unfolding field_token_def by simp_all
  have "word_before s (i + 1)"
    unfolding word_before_def using l upper_AZ_facts(1)[OF u(1)] by simp
  moreover have "word_at s (i + 1)"
    unfolding word_at_def using l upper_AZ_facts(1)[OF u(2)] by simp
  ultimately have "\<not> word_boundary s (i + 1)"
    unfolding word_boundary_def by simp
  then show ?thesis
    unfolding field_token_def by simp
qed

lemma field_token_no_S_digits:
  assumes "field_token s i"
  shows "\<not> lookahead_S_digits s i" and "\<not> S_digits (slice s i (i + 2))"
proof -
  have l: "i + 1 < length s" and u: "is_upper_AZ (s ! i)" "is_upper_AZ (s ! (i + 1))"
    using assms unfolding field_token_def by simp_all
  have "drop (i + 1) s = s ! (i + 1) # drop (Suc (i + 1)) s"
    using l by (simp add: Cons_nth_drop_Suc)
  then have "takeWhile is_digit (drop (i + 1) s) = []"
    using upper_AZ_facts(2)[OF u(2)] by simp
  then show "\<not> lookahead_S_digits s i"
    unfolding lookahead_S_digits_def by simp
  show "\<not> S_digits (slice s i (i + 2))"
    unfolding slice_two[OF l] S_digits_def using upper_AZ_facts(2)[OF u(2)] by simp
qed

lemma field_token_lookahead_OR:
  assumes "field_token s i"
  shows "lookahead_OR s i = (slice s i (i + 2) = ''OR'')"
proof -
  have l: "i + 1 < length s" and b: "word_boundary s (i + 2)"
    using assms unfolding field_token_def by simp_all
  show ?thesis
    unfolding slice_two[OF l] lookahead_OR_def char_in_def using l b by auto
qed

lemma match_unsupported_search_field_eq:
  "match_unsupported_search_field s i
   = (if field_token s i \<and> slice s i (i + 2) \<noteq> ''OR'' then Some (i + 2) else None)"
proof (cases "field_token s i")
  case True
  have "match_unsupported_search_field s i
        = (if \<not> lookahead_OR s i \<and> \<not> lookahead_S_digits s i then Some (i + 2) else None)"
    using True unfolding match_unsupported_search_field_def field_token_def by auto
  then show ?thesis
    using True field_token_no_S_digits(1)[OF True] field_token_lookahead_OR[OF True] by simp
next
  case False
  then show ?thesis
    unfolding match_unsupported_search_field_def field_token_def by auto
qed

lemma finditer_from_width2:
  "(\<And>k. m s k = None \<or> m s k = Some (k + 2)) \<Longrightarrow>
   (\<And>k. m s k \<noteq> None \<Longrightarrow> m s (k + 1) = None \<and> k + 1 < length s) \<Longrightarrow>
   finditer_from m s i
   = map (\<lambda>k. (k, k + 2)) (filter (\<lambda>k. m s k \<noteq> None) [i ..< Suc (length s)])"
proof (induction m s i rule: finditer_from.induct)
  case (1 m s i)
  note width = "1.prems"(1) and apart = "1.prems"(2)
  show ?case
  proof (cases "length s < i")
    case True
    then show ?thesis
      by (simp add: finditer_from.simps[of m s i])
  next
    case False
    then have upt: "[i ..< Suc (length s)] = i # [i + 1 ..< Suc (length s)]"
      by (simp add: upt_conv_Cons)
    show ?thesis
    proof (cases "m s i")
      case None
      have "finditer_from m s (i + 1)
            = map (\<lambda>k. (k, k + 2)) (filter (\<lambda>k. m s k \<noteq> None) [i + 1 ..< Suc (length s)])"
        using "1.IH"(1)[OF False None] width apart by blast
      then show ?thesis
        unfolding upt using False None by (simp add: finditer_from.simps[of m s i])
    next
      case (Some e)
      have e: "e = i + 2"
        using width[of i] Some by simp
      have next_none: "m s (i + 1) = None" and l: "i + 1 < length s"
        using apart[of i] Some by simp_all
      have upt2: "[i + 1 ..< Suc (length s)] = (i + 1) # [i + 2 ..< Suc (length s)]"
        using l by (simp add: upt_conv_Cons)
      have "finditer_from m s (if i < e then e else i + 1)
            = map (\<lambda>k. (k, k + 2))
                (filter (\<lambda>k. m s k \<noteq> None) [(if i < e then e else i + 1) ..< Suc (length s)])"
        using "1.IH"(2)[OF False Some] width apart by blast
      then have "finditer_from m s (i + 2)
            = map (\<lambda>k. (k, k + 2)) (filter (\<lambda>k. m s k \<noteq> None) [i + 2 ..< Suc (length s)])"
        unfolding e by simp
      then show ?thesis
        unfolding upt upt2 using False Some next_none e
        by (simp add: finditer_from.simps[of m s i])
    qed
  qed
qed

lemma finditer_unsupported:
  "finditer match_unsupported_search_field s
   = map (\<lambda>k. (k, k + 2)) (filter (candidate s) [0 ..< length s])"
proof -
  have m: "\<And>k. (match_unsupported_search_field s k \<noteq> None) = candidate s k"
    unfolding match_unsupported_search_field_eq candidate_def by simp
  have "finditer_from match_unsupported_search_field s 0
        = map (\<lambda>k. (k, k + 2))
            (filter (\<lambda>k. match_unsupported_search_field s k \<noteq> None) [0 ..< Suc (length s)])"
  proof (rule finditer_from_width2)
    fix k
    show "match_unsupported_search_field s k = None
          \<or> match_unsupported_search_field s k = Some (k + 2)"
      unfolding match_unsupported_search_field_eq by simp
  next
    fix k assume "match_unsupported_search_field s k \<noteq> None"
    then have t: "field_token s k"
      unfolding match_unsupported_search_field_eq by (simp split: if_splits)
    then have "k + 1 < length s"
      unfolding field_token_def by simp
    then show "match_unsupported_search_field s (k + 1) = None \<and> k + 1 < length s"
      unfolding match_unsupported_search_field_eq[of s "k + 1"]
      using field_token_not_next[OF t] by simp
  qed
  moreover have "\<not> candidate s (length s)"
    unfolding candidate_def field_token_def by simp
  ultimately show ?thesis
    unfolding finditer_def m by simp
qed

lemma length_overwrite [simp]: "length (overwrite s ks) = length s"
  by (simp add: overwrite_def)

lemma overwrite_nth:
  "j < length s \<Longrightarrow>
     overwrite s ks ! j
     = (if j \<in> set ks then CHR ''A'' else if 0 < j \<and> j - 1 \<in> set ks then CHR ''B'' else s ! j)"
  by (auto simp: overwrite_def)

lemma overwrite_Nil: "overwrite s [] = s"
  by (rule nth_equalityI) (simp_all add: overwrite_nth)

lemma overwrite_step:
  assumes l: "k + 1 < length s" and apart: "k + 1 \<notin> set ks"
  shows "replace_slice (overwrite s ks) k (k + 2) ''AB'' = overwrite s (ks @ [k])"
proof (rule nth_equalityI)
  show "length (replace_slice (overwrite s ks) k (k + 2) ''AB'') = length (overwrite s (ks @ [k]))"
    using l by (simp add: replace_slice_length)
next
  fix j assume "j < length (replace_slice (overwrite s ks) k (k + 2) ''AB'')"
  then have j: "j < length s"
    using l by (simp add: replace_slice_length)
  have "replace_slice (overwrite s ks) k (k + 2) ''AB'' ! j
        = (if k \<le> j \<and> j < k + 2 then ''AB'' ! (j - k) else overwrite s ks ! j)"
    using l j by (intro replace_slice_nth) simp_all
  also have "\<dots> = overwrite s (ks @ [k]) ! j"
  proof -
    consider "j = k" | "j = k + 1" | "j < k" | "k + 2 \<le> j" by linarith
    then show ?thesis
    proof cases
      case 1
      then show ?thesis using j by (simp add: overwrite_nth)
    next
      case 2
      then show ?thesis using j apart by (simp add: overwrite_nth)
    next
      case 3
      then show ?thesis using j by (auto simp: overwrite_nth)
    next
      case 4
      then show ?thesis using j by (auto simp: overwrite_nth)
    qed
  qed
  finally show "replace_slice (overwrite s ks) k (k + 2) ''AB'' ! j = overwrite s (ks @ [k]) ! j" .
qed

lemma candidate_unsupported:
  assumes "candidate s k"
  shows "(strip (slice s k (k + 2)) \<notin> supported_fields) = unsupported_token s k"
proof -
  have t: "field_token s k" using assms unfolding candidate_def by simp
  show ?thesis
    unfolding field_token_strip[OF t] unsupported_token_def
    using assms field_token_no_S_digits(2)[OF t] unfolding candidate_def by simp
qed

lemma filter_loop_non_strict:
  assumes "\<forall>k \<in> set seen \<union> set ks. candidate s k"
  shows "filter_loop s False (map (\<lambda>k. (k, k + 2)) ks)
           (overwrite s (filter (unsupported_token s) seen)) msgs inputs
         = Inr (overwrite s (filter (unsupported_token s) (seen @ ks)),
                msgs @ map (unsupported_error s) (filter (unsupported_token s) ks),
                inputs)"
  using assms
proof (induction ks arbitrary: seen msgs)
  case Nil
  then show ?case by simp
next
  case (Cons k ks)
  have c: "candidate s k" using Cons.prems by simp
  then have t: "field_token s k" unfolding candidate_def by simp
  have l: "k + 1 < length s" using t unfolding field_token_def by simp
  have prems': "\<forall>k \<in> set (seen @ [k]) \<union> set ks. candidate s k"
    using Cons.prems by auto
  note IH = Cons.IH[OF prems']
  let ?Q = "overwrite s (filter (unsupported_token s) seen)"
  show ?case
  proof (cases "unsupported_token s k")
    case True
    have "k + 1 \<notin> set (filter (unsupported_token s) seen)"
    proof
      assume "k + 1 \<in> set (filter (unsupported_token s) seen)"
      then have "field_token s (k + 1)"
        unfolding unsupported_token_def by simp
      then show False using field_token_not_next[OF t] by simp
    qed
    from overwrite_step[OF l this]
    have step: "replace_slice ?Q k (k + 2) ''AB''
                = overwrite s (filter (unsupported_token s) (seen @ [k]))"
      using True by simp
    have "filter_loop s False (map (\<lambda>k. (k, k + 2)) (k # ks)) ?Q msgs inputs
          = filter_loop s False (map (\<lambda>k. (k, k + 2)) ks)
              (replace_slice ?Q k (k + 2) ''AB'') (msgs @ [unsupported_error s k]) inputs"
      using True candidate_unsupported[OF c] field_token_strip[OF t]
      by (simp add: Let_def unsupported_error_def)
    also have "\<dots> = Inr (overwrite s (filter (unsupported_token s) ((seen @ [k]) @ ks)),
                (msgs @ [unsupported_error s k])
                  @ map (unsupported_error s) (filter (unsupported_token s) ks),
                inputs)"
      unfolding step by (rule IH)
    also have "\<dots> = Inr (overwrite s (filter (unsupported_token s) (seen @ k # ks)),
                msgs @ map (unsupported_error s) (filter (unsupported_token s) (k # ks)),
                inputs)"
      using True by simp
    finally show ?thesis .
  next
    case False
    have same: "filter (unsupported_token s) (seen @ [k]) = filter (unsupported_token s) seen"
      using False by simp
    have "filter_loop s False (map (\<lambda>k. (k, k + 2)) (k # ks)) ?Q msgs inputs
          = filter_loop s False (map (\<lambda>k. (k, k + 2)) ks) ?Q msgs inputs"
      using False candidate_unsupported[OF c]
      by (simp add: Let_def)
    also have "\<dots> = Inr (overwrite s (filter (unsupported_token s) ((seen @ [k]) @ ks)),
                msgs @ map (unsupported_error s) (filter (unsupported_token s) ks),
                inputs)"
      using IH[of msgs] unfolding same .
    also have "\<dots> = Inr (overwrite s (filter (unsupported_token s) (seen @ k # ks)),
                msgs @ map (unsupported_error s) (filter (unsupported_token s) (k # ks)),
                inputs)"
      using False by simp
    finally show ?thesis .
  qed
qed

lemma replaced_overwrite:
  "overwrite s (filter (unsupported_token s) [0 ..< length s]) = replaced s"
proof -
  have mem: "\<And>j. (j \<in> set (filter (unsupported_token s) [0 ..< length s]))
              = unsupported_token s j"
    unfolding unsupported_token_def field_token_def by auto
  show ?thesis
    unfolding overwrite_def replaced_def mem ..
qed

lemma filter_unsupported_candidate:
  "filter (unsupported_token s) (filter (candidate s) [0 ..< length s])
   = filter (unsupported_token s) [0 ..< length s]"
proof -
  have "\<And>k. (candidate s k \<and> unsupported_token s k) = unsupported_token s k"
    unfolding unsupported_token_def candidate_def by auto
  then show ?thesis by simp
qed

text \<open>
  Claim C8: in non-strict mode, for every query string (of code points below 256),
  \<open>filter_search_field\<close> raises nothing, reads no input, and
  \<^item> replaces every word-bounded two-letter upper-case token of the query string that
    is not the literal OR, not of the form S<digits> and not in the supported set with
    AB at its span: the stored string becomes \<open>replaced\<close> of the query string, of the
    same length, in which the span of every such token holds AB;
  \<^item> leaves exactly one message per replacement, in the order of the tokens, of
    level Error and with the span of the token as its position;
  \<^item> leaves all the other characters, those of the supported codes among them, and
    the other field of the validator as they are.
\<close>

theorem filter_search_field_non_strict:
  "filter_search_field v False inputs
   = Inr (v\<lparr>query_str := replaced (query_str v),
            linter_messages :=
              map (unsupported_error (query_str v))
                (filter (unsupported_token (query_str v)) [0 ..< length (query_str v)])\<rparr>,
          inputs)
   \<and> length (replaced (query_str v)) = length (query_str v)
   \<and> (\<forall>i. unsupported_token (query_str v) i
        \<longrightarrow> slice (replaced (query_str v)) i (i + 2) = ''AB'')
   \<and> (\<forall>j < length (query_str v).
        \<not> unsupported_token (query_str v) j \<and> \<not> (0 < j \<and> unsupported_token (query_str v) (j - 1))
        \<longrightarrow> replaced (query_str v) ! j = query_str v ! j)"
proof (intro conjI)
  let ?s = "query_str v"
  let ?ks = "filter (candidate ?s) [0 ..< length ?s]"
  have "\<forall>k \<in> set [] \<union> set ?ks. candidate ?s k" by simp
  from filter_loop_non_strict[OF this, of "[]" inputs]
  have "filter_loop ?s False (finditer match_unsupported_search_field ?s) ?s [] inputs
        = Inr (replaced ?s,
               map (unsupported_error ?s) (filter (unsupported_token ?s) [0 ..< length ?s]),
               inputs)"
    unfolding finditer_unsupported
    by (simp add: overwrite_Nil replaced_overwrite filter_unsupported_candidate
          del: filter_filter)
  then show "filter_search_field v False inputs
   = Inr (v\<lparr>query_str := replaced ?s,
            linter_messages :=
              map (unsupported_error ?s) (filter (unsupported_token ?s) [0 ..< length ?s])\<rparr>,
          inputs)"
    unfolding filter_search_field_def by simp
  show "length (replaced ?s) = length ?s"
    by (simp add: replaced_def)
  show "\<forall>i. unsupported_token ?s i \<longrightarrow> slice (replaced ?s) i (i + 2) = ''AB''"
  proof (intro allI impI)
    fix i assume u: "unsupported_token ?s i"
    then have t: "field_token ?s i" unfolding unsupported_token_def by simp
    then have l: "i + 1 < length ?s" unfolding field_token_def by simp
    have "\<not> unsupported_token ?s (i + 1)"
      using field_token_not_next[OF t] unfolding unsupported_token_def by simp
    then show "slice (replaced ?s) i (i + 2) = ''AB''"
      using slice_two[of i "replaced ?s"] l u by (simp add: replaced_def)
  qed
  show "\<forall>j < length ?s.
        \<not> unsupported_token ?s j \<and> \<not> (0 < j \<and> unsupported_token ?s (j - 1))
        \<longrightarrow> replaced ?s ! j = ?s ! j"
    by (simp add: replaced_def)
qed

theorem filter_search_field_non_strict_witness:
  "filter_search_field
     \<lparr>query_str = ''TI cancer OR XY lung'', search_field_general = ''TI'', linter_messages = []\<rparr>
     False []
   = Inr (\<lparr>query_str = ''TI cancer OR AB lung'', search_field_general = ''TI'',
           linter_messages =
             [\<lparr>level = ''Error'',
               msg = ''search-field-unsupported: '' @ [CHR 0x27] @ ''XY'' @ [CHR 0x27]
                     @ '' automatically changed to Abstract AB.'',
               pos = Tuple 13 15\<rparr>]\<rparr>,
          [])
   \<and> slice (replaced ''TI cancer OR XY lung'') 13 15 = ''AB''
   \<and> replaced ''TI cancer OR XY lung'' ! 10 = CHR ''O''"
proof -
  let ?s = "''TI cancer OR XY lung''"
  let ?v = "\<lparr>query_str = ?s, search_field_general = ''TI'', linter_messages = []\<rparr>"
  have u: "unsupported_token ?s 13"
    by code_simp
  have nu: "\<not> unsupported_token ?s 10 \<and> \<not> (0 < (10::nat) \<and> unsupported_token ?s (10 - 1))"
    by code_simp
  have r: "replaced ?s = ''TI cancer OR AB lung''"
    by code_simp
  have f: "filter (unsupported_token ?s) [0 ..< length ?s] = [13]"
    by code_simp
  have e: "unsupported_error ?s 13
           = \<lparr>level = ''Error'',
               msg = ''search-field-unsupported: '' @ [CHR 0x27] @ ''XY'' @ [CHR 0x27]
                     @ '' automatically changed to Abstract AB.'',
               pos = Tuple 13 15\<rparr>"
    by code_simp
  note T = filter_search_field_non_strict[of ?v "[]", unfolded validator.select_convs]
  from T have A: "filter_search_field ?v False []
        = Inr (?v\<lparr>query_str := replaced ?s,
                    linter_messages :=
                      map (unsupported_error ?s)
                        (filter (unsupported_token ?s) [0 ..< length ?s])\<rparr>, [])"
    by blast
  from T have B: "\<forall>i. unsupported_token ?s i \<longrightarrow> slice (replaced ?s) i (i + 2) = ''AB''"
    by blast
  from T have C: "\<forall>j < length ?s.
        \<not> unsupported_token ?s j \<and> \<not> (0 < j \<and> unsupported_token ?s (j - 1))
        \<longrightarrow> replaced ?s ! j = ?s ! j"
    by blast
  have 1: "filter_search_field ?v False []
        = Inr (\<lparr>query_str = ''TI cancer OR AB lung'', search_field_general = ''TI'',
           linter_messages =
             [\<lparr>level = ''Error'',
               msg = ''search-field-unsupported: '' @ [CHR 0x27] @ ''XY'' @ [CHR 0x27]
                     @ '' automatically changed to Abstract AB.'',
               pos = Tuple 13 15\<rparr>]\<rparr>, [])"
    unfolding A f r by (simp add: e)
  from B u have "slice (replaced ?s) 13 (13 + 2) = ''AB''"
    by blast
  then have 2: "slice (replaced ?s) 13 15 = ''AB''"
    by simp
  have "(10::nat) < length ?s" by simp
  with C nu have "replaced ?s ! 10 = ?s ! 10"
    by blast
  then have 3: "replaced ?s ! 10 = CHR ''O''"
    by simp
  show ?thesis
    using 1 2 3 by blast
qed

end
